theory Spec2Isabelle
  imports Main "HOL-Library.Word"
begin

unbundle bit_operations_syntax

section \<open>Shared machine types\<close>

type_synonym byte = "8 word"
type_synonym int32 = "32 word"
type_synonym uint32 = "32 word"
type_synonym int64 = "64 word"
type_synonym uint64 = "64 word"

text \<open>
  A \<open>DataStorage\<close> (a growable byte buffer with \<open>buf\<close> and \<open>len\<close>) is the list of its
  bytes; \<open>len\<close> is the length of the list.
\<close>

type_synonym DataStorage = "byte list"

section \<open>wasm/src/gen_wasm.c: LEB128 emitters\<close>

text \<open>
  Both emitters fill a local \<open>unsigned char buf[5]\<close> through \<open>*p++\<close> and then hand
  \<open>p - buf\<close> bytes to \<open>data_insert\<close>. A store through \<open>p\<close> once five bytes are
  written lies outside the array; the model reports it as \<open>BufferOverrun\<close>.
\<close>

datatype leb_error = BufferOverrun

definition LEB_BUF_SIZE :: nat where
  "LEB_BUF_SIZE = 5"

text \<open>
  Modelled from the spec: \<open>data_insert(data, pos, buf, n)\<close> of util (not among the
  sources) puts the \<open>n\<close> bytes of \<open>buf\<close> into \<open>data\<close> at offset \<open>pos\<close>
  (``used in-place inside a byte vector at arbitrary insertion positions'').
\<close>

definition data_insert :: "DataStorage \<Rightarrow> nat \<Rightarrow> byte list \<Rightarrow> DataStorage" where
  "data_insert d pos bs = take pos d @ bs @ drop pos d"

text \<open>The \<open>for (;;)\<close> loop of \<open>emit_uleb128\<close>; \<open>buf\<close> holds the bytes stored so far.\<close>

function uleb128_loop :: "byte list \<Rightarrow> uint64 \<Rightarrow> leb_error + byte list" where
  "uleb128_loop buf val =
     (if LEB_BUF_SIZE \<le> length buf then Inl BufferOverrun
      else if val < 128 then Inr (buf @ [ucast (val AND 0x7f)])
      else uleb128_loop (buf @ [ucast ((val AND 0x7f) OR 0x80)]) (drop_bit 7 val))"
  by pat_completeness auto
termination
  by (relation "measure (\<lambda>(buf, val). LEB_BUF_SIZE - length buf)") auto

declare uleb128_loop.simps [simp del]

definition emit_uleb128 :: "DataStorage \<Rightarrow> nat \<Rightarrow> uint64 \<Rightarrow> leb_error + DataStorage" where
  "emit_uleb128 d pos val =
     (case uleb128_loop [] val of
        Inl e \<Rightarrow> Inl e
      | Inr bs \<Rightarrow> Inr (data_insert d pos bs))"

text \<open>
  The loop of \<open>emit_leb128\<close>: \<open>val\<close> is an \<open>int64_t\<close>, compared signed against
  \<open>MAX = 1 << 6\<close>, and \<open>val >>= 7\<close> is the arithmetic shift.
\<close>

function leb128_loop :: "byte list \<Rightarrow> int64 \<Rightarrow> leb_error + byte list" where
  "leb128_loop buf val =
     (if LEB_BUF_SIZE \<le> length buf then Inl BufferOverrun
      else if val <s 64 \<and> - 64 \<le>s val then Inr (buf @ [ucast (val AND 0x7f)])
      else leb128_loop (buf @ [ucast ((val AND 0x7f) OR 0x80)]) (signed_drop_bit 7 val))"
  by pat_completeness auto
termination
  by (relation "measure (\<lambda>(buf, val). LEB_BUF_SIZE - length buf)") auto

declare leb128_loop.simps [simp del]

definition emit_leb128 :: "DataStorage \<Rightarrow> nat \<Rightarrow> int64 \<Rightarrow> leb_error + DataStorage" where
  "emit_leb128 d pos val =
     (case leb128_loop [] val of
        Inl e \<Rightarrow> Inl e
      | Inr bs \<Rightarrow> Inr (data_insert d pos bs))"

text \<open>
  Modelled from the spec: the repository has no LEB128 reader. The decoders follow the
  spec's description of the format: 7 bits per byte, the top bit a continuation bit, the
  signed form sign-extending the final group.
\<close>

fun decode_uleb128 :: "byte list \<Rightarrow> nat" where
  "decode_uleb128 [] = 0"
| "decode_uleb128 (b # bs) =
     unat (b AND 0x7f) + (if bit b 7 then 128 * decode_uleb128 bs else 0)"

fun decode_leb128 :: "byte list \<Rightarrow> int" where
  "decode_leb128 [] = 0"
| "decode_leb128 (b # bs) =
     (if bit b 7 then uint (b AND 0x7f) + 128 * decode_leb128 bs
      else if bit b 6 then uint (b AND 0x7f) - 128
      else uint (b AND 0x7f))"

section \<open>src/cc/backend/codegen_expr.c: types, virtual registers, conditions\<close>

text \<open>
  The headers \<open>type.h\<close>, \<open>ir.h\<close> and \<open>ast.h\<close> are not among the sources. What the
  functions below read of them is kept as data: a \<open>Type\<close> carries its kind, the
  \<open>fixnum.is_unsigned\<close> bit and the result of \<open>type_size\<close>; flag words whose bit
  positions are unknown (\<open>VRTF_*\<close>, \<open>VRF_*\<close>, \<open>COND_UNSIGNED\<close>, \<open>COND_FLONUM\<close>) are
  one boolean per flag. \<open>Fixnum\<close> is \<open>int64_t\<close>, \<open>UFixnum\<close> and \<open>unsigned long\<close> are
  64 bits wide, \<open>int\<close> is 32 bits wide and \<open>TARGET_CHAR_BIT\<close> is 8.
\<close>

datatype TypeKind = TY_VOID | TY_FIXNUM | TY_PTR | TY_ARRAY | TY_FUNC | TY_STRUCT | TY_FLONUM

record Type =
  kind :: TypeKind
  is_unsigned :: bool
  type_size :: nat
  align_size :: nat

record VRegType =
  vsize :: nat
  valign :: nat
  VRTF_FLONUM :: bool
  VRTF_UNSIGNED :: bool

record VReg =
  virt :: nat
  phys :: int
  fixnum :: int64
  vtype :: VRegType
  VRF_PARAM :: bool
  VRF_REF :: bool
  VRF_CONST :: bool
  VRF_SPILLED :: bool
  VRF_NO_SPILL :: bool
  reg_param_index :: int
  frame_offset :: int

datatype cg_error = AssertFailed

definition is_fixnum :: "TypeKind \<Rightarrow> bool" where
  "is_fixnum k = (k = TY_FIXNUM)"

definition is_flonum :: "Type \<Rightarrow> bool" where
  "is_flonum t = (kind t = TY_FLONUM)"

definition is_prim_type :: "Type \<Rightarrow> bool" where
  "is_prim_type t = (kind t = TY_FIXNUM \<or> kind t = TY_PTR \<or> kind t = TY_FLONUM)"

text \<open>\<open>to_vtype\<close>, with its two assertions as the error branch.\<close>

definition to_vtype :: "Type \<Rightarrow> cg_error + VRegType" where
  "to_vtype t =
     (if \<not> is_prim_type t then Inl AssertFailed
      else let size = type_size t in
        if \<not> (1 \<le> size \<and> size \<le> 8 \<and> (size = 1 \<or> size = 2 \<or> size = 4 \<or> size = 8))
        then Inl AssertFailed
        else
          let u0 = (if is_fixnum (kind t) then is_unsigned t else True);
              fl = is_flonum t;
              u = (if fl then False else u0)
          in Inr \<lparr>vsize = size, valign = align_size t, VRTF_FLONUM = fl, VRTF_UNSIGNED = u\<rparr>)"

subsection \<open>\<open>gen_cast\<close>\<close>

text \<open>
  What \<open>gen_cast\<close> returns: \<open>NULL\<close>, the vreg it was given, the vreg made by
  \<open>new_const_vreg(value, vtype)\<close>, or the vreg made by \<open>new_ir_cast(vreg, vtype)\<close>
  (\<open>ir.c\<close> is not among the sources, so the two constructors stay symbolic).
\<close>

datatype cast_result =
    CastNull
  | CastSame VReg
  | NewConstVReg int64 VRegType
  | NewIrCast VReg VRegType

text \<open>
  The constant branch. \<open>1 << (bit - 1)\<close> is computed in \<open>int\<close> and then converted to
  \<open>Fixnum\<close> for the \<open>&\<close>, hence the 32-bit shift followed by the sign-extending
  \<open>scast\<close>; \<open>(-1UL) << bit\<close> is computed in 64 bits.
\<close>

definition cast_const_value :: "int64 \<Rightarrow> nat \<Rightarrow> Type \<Rightarrow> int64" where
  "cast_const_value v src_size dst_type =
     (let dst_size = type_size dst_type in
      if dst_size < src_size \<and> dst_size < 8 then
        (let b = dst_size * 8;
             mask = push_bit b (- 1 :: uint64)
         in if kind dst_type = TY_FIXNUM \<and> \<not> is_unsigned dst_type \<and>
               v AND scast (push_bit (b - 1) (1 :: int32)) \<noteq> 0
            then v OR mask
            else v AND NOT mask)
      else v)"

definition gen_cast :: "VReg \<Rightarrow> Type \<Rightarrow> cg_error + cast_result" where
  "gen_cast vreg dst_type =
     (if kind dst_type = TY_VOID then Inr CastNull
      else if kind dst_type = TY_STRUCT then Inr (CastSame vreg)
      else if VRF_CONST vreg then
        (if VRTF_FLONUM (vtype vreg) then Inl AssertFailed
         else case to_vtype dst_type of
            Inl e \<Rightarrow> Inl e
          | Inr vt \<Rightarrow>
              Inr (NewConstVReg (cast_const_value (fixnum vreg) (vsize (vtype vreg)) dst_type) vt))
      else
        (let dst_size = type_size dst_type;
             lu = (if kind dst_type = TY_FIXNUM then is_unsigned dst_type
                   else kind dst_type = TY_PTR);
             ru = VRTF_UNSIGNED (vtype vreg)
         in if dst_size = vsize (vtype vreg) \<and> lu = ru \<and>
               is_flonum dst_type = VRTF_FLONUM (vtype vreg)
            then Inr (CastSame vreg)
            else case to_vtype dst_type of
                Inl e \<Rightarrow> Inl e
              | Inr vt \<Rightarrow> Inr (NewIrCast vreg vt)))"

text \<open>
  The two's-complement truncation of a 64-bit payload to \<open>n\<close> bytes, read back as a
  64-bit value: sign-extended for a signed destination, zero-extended otherwise.
\<close>

definition truncate_to :: "nat \<Rightarrow> bool \<Rightarrow> int64 \<Rightarrow> int64" where
  "truncate_to n is_signed v =
     (if is_signed then signed_take_bit (8 * n - 1) v else take_bit (8 * n) v)"

subsection \<open>Expressions\<close>

text \<open>
  An \<open>Expr\<close> is a kind, a type and a union selected by the kind. The kinds that share
  the \<open>bop\<close> member and those that share the \<open>unary\<close> member are grouped, so that a
  node always carries the member its kind selects. Names are interned strings;
  \<open>alloc_label\<close> (not among the sources) hands out names no identifier can spell, which
  the model numbers. Scopes, statements and floating literals are referred to by number.
\<close>

datatype Name = Ident string | Label nat

datatype BinKind =
    EX_ADD | EX_SUB | EX_MUL | EX_DIV | EX_MOD
  | EX_BITAND | EX_BITOR | EX_BITXOR | EX_LSHIFT | EX_RSHIFT
  | EX_EQ | EX_NE | EX_LT | EX_LE | EX_GE | EX_GT
  | EX_LOGAND | EX_LOGIOR | EX_ASSIGN | EX_COMMA

datatype UnKind =
    EX_POS | EX_NEG | EX_BITNOT
  | EX_PREINC | EX_PREDEC | EX_POSTINC | EX_POSTDEC
  | EX_REF | EX_DEREF | EX_CAST | EX_MODIFY

datatype Expr =
    EX_FIXNUM Type int64
  | EX_FLONUM Type nat
  | EX_STR Type string
  | EX_VAR Type Name nat
  | Bop BinKind Type Expr Expr
  | Unary UnKind Type Expr
  | EX_MEMBER Type Expr nat
  | EX_TERNARY Type Expr Expr Expr
  | EX_FUNCALL Type Expr "Expr list"
  | EX_COMPLIT Type Expr nat
  | EX_BLOCK Type nat

fun expr_type :: "Expr \<Rightarrow> Type" where
  "expr_type (EX_FIXNUM t _) = t"
| "expr_type (EX_FLONUM t _) = t"
| "expr_type (EX_STR t _) = t"
| "expr_type (EX_VAR t _ _) = t"
| "expr_type (Bop _ t _ _) = t"
| "expr_type (Unary _ t _) = t"
| "expr_type (EX_MEMBER t _ _) = t"
| "expr_type (EX_TERNARY t _ _ _) = t"
| "expr_type (EX_FUNCALL t _ _) = t"
| "expr_type (EX_COMPLIT t _ _) = t"
| "expr_type (EX_BLOCK t _) = t"

subsection \<open>Code generator state\<close>

text \<open>
  The calls into \<open>ir.c\<close> made by the modelled functions are recorded in order.
  \<open>scope_add\<close> appends a \<open>VarInfo\<close> to the current scope; \<open>local.vreg\<close> is filled
  in afterwards. \<open>gen_expr\<close> is a parameter \<open>ge\<close> of the functions that call it: it
  takes the state, returns the vreg (\<open>None\<close> for \<open>NULL\<close>) and the state it leaves.
\<close>

datatype ir_call = New_ir_cmp VReg VReg

record VarInfo =
  vi_scope :: nat
  vi_name :: Name
  vi_type :: Type
  vi_storage :: nat
  local_vreg :: "VReg option"

record cg_state =
  emitted :: "ir_call list"
  label_no :: nat
  curscope :: nat
  scope_vars :: "VarInfo list"

type_synonym gen_expr_fn = "Expr \<Rightarrow> cg_state \<Rightarrow> VReg option \<times> cg_state"

subsection \<open>\<open>swap_cond\<close> and \<open>gen_compare_expr\<close>\<close>

text \<open>
  \<open>enum ConditionKind\<close> is declared in \<open>ir.h\<close>. The code relies on \<open>COND_EQ\<close> ..
  \<open>COND_GT\<close> being consecutive in the order EQ, NE, LT, LE, GE, GT and on \<open>EX_EQ\<close> ..
  \<open>EX_GT\<close> being consecutive in the same order (\<open>kind + (COND_EQ - EX_EQ)\<close>,
  \<open>(COND_GT + COND_LT) - cond\<close>); the model keeps that arithmetic on the offset
  from the first enumerator.
\<close>

datatype ConditionKind =
    COND_NONE | COND_ANY
  | COND_EQ | COND_NE | COND_LT | COND_LE | COND_GE | COND_GT

record cond_flags =
  cond :: ConditionKind
  COND_UNSIGNED :: bool
  COND_FLONUM :: bool

fun cond_offset :: "ConditionKind \<Rightarrow> nat option" where
  "cond_offset COND_EQ = Some 0"
| "cond_offset COND_NE = Some 1"
| "cond_offset COND_LT = Some 2"
| "cond_offset COND_LE = Some 3"
| "cond_offset COND_GE = Some 4"
| "cond_offset COND_GT = Some 5"
| "cond_offset _ = None"

definition cond_at :: "nat \<Rightarrow> ConditionKind" where
  "cond_at n = [COND_EQ, COND_NE, COND_LT, COND_LE, COND_GE, COND_GT] ! n"

fun compare_offset :: "BinKind \<Rightarrow> nat option" where
  "compare_offset EX_EQ = Some 0"
| "compare_offset EX_NE = Some 1"
| "compare_offset EX_LT = Some 2"
| "compare_offset EX_LE = Some 3"
| "compare_offset EX_GE = Some 4"
| "compare_offset EX_GT = Some 5"
| "compare_offset _ = None"

definition swap_cond :: "ConditionKind \<Rightarrow> cg_error + ConditionKind" where
  "swap_cond c =
     (case cond_offset c of
        None \<Rightarrow> Inl AssertFailed
      | Some n \<Rightarrow> Inr (if 2 \<le> n then cond_at ((5 + 2) - n) else c))"

text \<open>The \<open>switch (cond | flag)\<close> of the constant case; \<open>l\<close> and \<open>r\<close> are the payloads.\<close>

definition fold_compare :: "cond_flags \<Rightarrow> int64 \<Rightarrow> int64 \<Rightarrow> cg_error + ConditionKind" where
  "fold_compare cf l r =
     (let any = (\<lambda>b. Inr (if b then COND_ANY else COND_NONE)) in
      if COND_FLONUM cf then Inl AssertFailed
      else if \<not> COND_UNSIGNED cf then
        (case cond cf of
           COND_NONE \<Rightarrow> Inr COND_NONE
         | COND_ANY \<Rightarrow> Inr COND_ANY
         | COND_EQ \<Rightarrow> any (l = r)
         | COND_NE \<Rightarrow> any (l \<noteq> r)
         | COND_LT \<Rightarrow> any (l <s r)
         | COND_LE \<Rightarrow> any (l \<le>s r)
         | COND_GE \<Rightarrow> any (r \<le>s l)
         | COND_GT \<Rightarrow> any (r <s l))
      else
        (case cond cf of
           COND_EQ \<Rightarrow> any (l = r)
         | COND_NE \<Rightarrow> any (l \<noteq> r)
         | COND_LT \<Rightarrow> any (l < r)
         | COND_LE \<Rightarrow> any (l \<le> r)
         | COND_GE \<Rightarrow> any (r \<le> l)
         | COND_GT \<Rightarrow> any (r < l)
         | _ \<Rightarrow> Inl AssertFailed))"

definition new_ir_cmp :: "VReg \<Rightarrow> VReg \<Rightarrow> cg_state \<Rightarrow> cg_state" where
  "new_ir_cmp l r st = st\<lparr>emitted := emitted st @ [New_ir_cmp l r]\<rparr>"

text \<open>
  \<open>is_const\<close> (of \<open>ast.c\<close>, not among the sources) is a parameter. A \<open>NULL\<close> vreg
  is dereferenced by \<open>rhs_reg->flag\<close>, which the model reports as a failure.
\<close>

definition gen_compare_expr ::
  "(Expr \<Rightarrow> bool) \<Rightarrow> gen_expr_fn \<Rightarrow> BinKind \<Rightarrow> Expr \<Rightarrow> Expr \<Rightarrow> cg_state
     \<Rightarrow> cg_error + (cond_flags \<times> cg_state)" where
  "gen_compare_expr is_const ge k lhs0 rhs0 st =
     (if kind (expr_type lhs0) \<noteq> kind (expr_type rhs0) then Inl AssertFailed
      else case compare_offset k of
        None \<Rightarrow> Inl AssertFailed
      | Some n \<Rightarrow>
         (case (if is_const lhs0
                then (if is_const rhs0 then Inl AssertFailed
                      else case swap_cond (cond_at n) of
                          Inl e \<Rightarrow> Inl e
                        | Inr c \<Rightarrow> Inr (rhs0, lhs0, c))
                else Inr (lhs0, rhs0, cond_at n)) of
            Inl e \<Rightarrow> Inl e
          | Inr (lhs, rhs, c) \<Rightarrow>
             (let lt = expr_type lhs;
                  cf = \<lparr>cond = c,
                        COND_UNSIGNED = ((is_fixnum (kind lt) \<and> is_unsigned lt) \<or> kind lt = TY_PTR),
                        COND_FLONUM = is_flonum lt\<rparr>;
                  (lhs_reg, st1) = ge lhs st;
                  (rhs_reg, st2) = ge rhs st1
              in case (lhs_reg, rhs_reg) of
                   (Some lv, Some rv) \<Rightarrow>
                     if VRF_CONST rv \<and> VRF_CONST lv then
                       (if VRTF_FLONUM (vtype lv) \<or> VRTF_FLONUM (vtype rv) then Inl AssertFailed
                        else case fold_compare cf (fixnum lv) (fixnum rv) of
                            Inl e \<Rightarrow> Inl e
                          | Inr c' \<Rightarrow> Inr (cf\<lparr>cond := c', COND_UNSIGNED := False, COND_FLONUM := False\<rparr>, st2))
                     else if kind lt \<noteq> TY_FIXNUM \<and> kind lt \<noteq> TY_PTR \<and> kind lt \<noteq> TY_FLONUM
                       then Inl AssertFailed
                     else Inr (cf, new_ir_cmp lv rv st2)
                 | _ \<Rightarrow> Inl AssertFailed)))"

text \<open>
  What it means for the comparison \<open>k\<close> of two 64-bit payloads to hold: on their
  unsigned values when \<open>u\<close>, on their two's-complement values otherwise.
\<close>

fun compare_holds :: "bool \<Rightarrow> BinKind \<Rightarrow> int64 \<Rightarrow> int64 \<Rightarrow> bool" where
  "compare_holds u EX_EQ a b = (a = b)"
| "compare_holds u EX_NE a b = (a \<noteq> b)"
| "compare_holds u EX_LT a b = (if u then uint a < uint b else sint a < sint b)"
| "compare_holds u EX_LE a b = (if u then uint a \<le> uint b else sint a \<le> sint b)"
| "compare_holds u EX_GE a b = (if u then uint a \<ge> uint b else sint a \<ge> sint b)"
| "compare_holds u EX_GT a b = (if u then uint a > uint b else sint a > sint b)"
| "compare_holds u _ a b = False"

definition operand_unsigned :: "Type \<Rightarrow> bool" where
  "operand_unsigned t = ((kind t = TY_FIXNUM \<and> is_unsigned t) \<or> kind t = TY_PTR)"

text \<open>
  Modelled from the spec: \<open>new_const_vreg\<close> of \<open>ir.c\<close> (not among the sources) makes
  a vreg flagged constant that carries the payload; \<open>n\<close> is its number in the pool.
\<close>

definition new_const_vreg :: "int64 \<Rightarrow> VRegType \<Rightarrow> nat \<Rightarrow> VReg" where
  "new_const_vreg v vt n =
     \<lparr>virt = n, phys = - 1, fixnum = v, vtype = vt, VRF_PARAM = False, VRF_REF = False,
      VRF_CONST = True, VRF_SPILLED = False, VRF_NO_SPILL = False,
      reg_param_index = - 1, frame_offset = 0\<rparr>"

subsection \<open>\<open>simplify_funarg\<close>\<close>

text \<open>
  Modelled from the spec: \<open>alloc_label\<close>, \<open>scope_add\<close> and \<open>ptrof\<close> are not among the
  sources. By the spec the argument ``is stored into a temporary local and replaced by a
  reference to it'': \<open>alloc_label\<close> hands out the next label, one it has not handed out
  before (\<open>label_no\<close> counts them); \<open>scope_add\<close> makes a new \<open>VarInfo\<close> of that name at
  the end of the variables and returns it, a \<open>VarInfo *\<close> being the position among the
  variables. \<open>ptrof\<close> makes the pointer type, 8 bytes wide on the x86-64 target of this
  back end; the model's \<open>Type\<close> does not record the target type.
\<close>

definition alloc_label :: "cg_state \<Rightarrow> Name \<times> cg_state" where
  "alloc_label st = (Label (label_no st), st\<lparr>label_no := Suc (label_no st)\<rparr>)"

definition scope_add :: "nat \<Rightarrow> Name \<Rightarrow> Type \<Rightarrow> nat \<Rightarrow> cg_state \<Rightarrow> nat \<times> cg_state" where
  "scope_add scope name ty storage st =
     (length (scope_vars st),
      st\<lparr>scope_vars := scope_vars st @
          [\<lparr>vi_scope = scope, vi_name = name, vi_type = ty, vi_storage = storage,
            local_vreg = None\<rparr>]\<rparr>)"

definition ptrof :: "Type \<Rightarrow> Type" where
  "ptrof t = \<lparr>kind = TY_PTR, is_unsigned = False, type_size = 8, align_size = 8\<rparr>"

text \<open>\<open>varinfo->local.vreg = v\<close>, through the pointer that \<open>scope_add\<close> returned.\<close>

definition set_local_vreg :: "nat \<Rightarrow> VReg option \<Rightarrow> cg_state \<Rightarrow> cg_state" where
  "set_local_vreg varinfo v st =
     st\<lparr>scope_vars := (scope_vars st)[varinfo := (scope_vars st ! varinfo)\<lparr>local_vreg := v\<rparr>]\<rparr>"

definition gen_expr_as_tmpvar :: "gen_expr_fn \<Rightarrow> Expr \<Rightarrow> cg_state \<Rightarrow> Expr \<times> cg_state" where
  "gen_expr_as_tmpvar ge arg st =
     (let ty = (if kind (expr_type arg) = TY_STRUCT then ptrof (expr_type arg)
                else expr_type arg);
          scope = curscope st;
          (name, st1) = alloc_label st;
          (varinfo, st2) = scope_add scope name ty 0 st1;
          (v, st3) = ge arg st2
      in (EX_VAR ty name scope, set_local_vreg varinfo v st3))"

text \<open>
  \<open>simplify_funarg\<close>. \<open>x86_64\<close> says whether \<open>__x86_64__\<close> is defined. The \<open>default\<close>
  branch is an assertion failure; of the kinds modelled only \<open>EX_MODIFY\<close> reaches it.
  Where the C code stores the simplified operand back into the node, the model
  rebuilds the node.
\<close>

fun simplify_funarg ::
  "gen_expr_fn \<Rightarrow> bool \<Rightarrow> Expr \<Rightarrow> cg_state \<Rightarrow> cg_error + (Expr \<times> cg_state)" where
  "simplify_funarg ge x86_64 (Unary k t sub) st =
     (if k = EX_PREINC \<or> k = EX_PREDEC \<or> k = EX_POSTINC \<or> k = EX_POSTDEC
        then Inr (gen_expr_as_tmpvar ge (Unary k t sub) st)
      else if k = EX_MODIFY then Inl AssertFailed
      else case simplify_funarg ge x86_64 sub st of
          Inl e \<Rightarrow> Inl e
        | Inr (sub', st') \<Rightarrow> Inr (Unary k t sub', st'))"
| "simplify_funarg ge x86_64 (Bop k t lhs rhs) st =
     (if k = EX_ASSIGN \<or> k = EX_LOGAND \<or> k = EX_LOGIOR
        then Inr (gen_expr_as_tmpvar ge (Bop k t lhs rhs) st)
      else if k = EX_COMMA
        then simplify_funarg ge x86_64 rhs (snd (ge lhs st))
      else if (k = EX_MUL \<or> k = EX_DIV) \<and> x86_64
        then Inr (gen_expr_as_tmpvar ge (Bop k t lhs rhs) st)
      else case simplify_funarg ge x86_64 lhs st of
          Inl e \<Rightarrow> Inl e
        | Inr (lhs', st1) \<Rightarrow>
           (case simplify_funarg ge x86_64 rhs st1 of
              Inl e \<Rightarrow> Inl e
            | Inr (rhs', st2) \<Rightarrow> Inr (Bop k t lhs' rhs', st2)))"
| "simplify_funarg ge x86_64 (EX_TERNARY t c a b) st =
     Inr (gen_expr_as_tmpvar ge (EX_TERNARY t c a b) st)"
| "simplify_funarg ge x86_64 (EX_FUNCALL t f args) st =
     Inr (gen_expr_as_tmpvar ge (EX_FUNCALL t f args) st)"
| "simplify_funarg ge x86_64 (EX_BLOCK t b) st =
     Inr (gen_expr_as_tmpvar ge (EX_BLOCK t b) st)"
| "simplify_funarg ge x86_64 (EX_COMPLIT t var inits) st =
     Inr (var, snd (ge (EX_COMPLIT t var inits) st))"
| "simplify_funarg ge x86_64 (EX_MEMBER t target idx) st =
     (case simplify_funarg ge x86_64 target st of
        Inl e \<Rightarrow> Inl e
      | Inr (target', st') \<Rightarrow> Inr (EX_MEMBER t target' idx, st'))"
| "simplify_funarg ge x86_64 (EX_FIXNUM t v) st = Inr (EX_FIXNUM t v, st)"
| "simplify_funarg ge x86_64 (EX_FLONUM t v) st = Inr (EX_FLONUM t v, st)"
| "simplify_funarg ge x86_64 (EX_STR t v) st = Inr (EX_STR t v, st)"
| "simplify_funarg ge x86_64 (EX_VAR t name scope) st = Inr (EX_VAR t name scope, st)"

text \<open>The loop of \<open>gen_funcall\<close> over the arguments, first to last.\<close>

fun simplify_args ::
  "gen_expr_fn \<Rightarrow> bool \<Rightarrow> Expr list \<Rightarrow> cg_state \<Rightarrow> cg_error + (Expr list \<times> cg_state)" where
  "simplify_args ge x86_64 [] st = Inr ([], st)"
| "simplify_args ge x86_64 (arg # args) st =
     (case simplify_funarg ge x86_64 arg st of
        Inl e \<Rightarrow> Inl e
      | Inr (arg', st1) \<Rightarrow>
         (case simplify_args ge x86_64 args st1 of
            Inl e \<Rightarrow> Inl e
          | Inr (args', st2) \<Rightarrow> Inr (arg' # args', st2)))"

text \<open>The kinds the claim lists as precalculated, and the literal and variable kinds.\<close>

fun precalculated :: "bool \<Rightarrow> Expr \<Rightarrow> bool" where
  "precalculated x86_64 (Unary k _ _) =
     (k = EX_PREINC \<or> k = EX_PREDEC \<or> k = EX_POSTINC \<or> k = EX_POSTDEC)"
| "precalculated x86_64 (Bop k _ _ _) =
     (k = EX_ASSIGN \<or> k = EX_LOGAND \<or> k = EX_LOGIOR \<or> ((k = EX_MUL \<or> k = EX_DIV) \<and> x86_64))"
| "precalculated x86_64 (EX_TERNARY _ _ _ _) = True"
| "precalculated x86_64 (EX_FUNCALL _ _ _) = True"
| "precalculated x86_64 (EX_BLOCK _ _) = True"
| "precalculated x86_64 _ = False"

fun literal_or_variable :: "Expr \<Rightarrow> bool" where
  "literal_or_variable (EX_FIXNUM _ _) = True"
| "literal_or_variable (EX_FLONUM _ _) = True"
| "literal_or_variable (EX_STR _ _) = True"
| "literal_or_variable (EX_VAR _ _ _) = True"
| "literal_or_variable _ = False"

text \<open>The type of the temporary made by \<open>gen_expr_as_tmpvar\<close>.\<close>

definition tmpvar_type :: "Expr \<Rightarrow> Type" where
  "tmpvar_type e = (if kind (expr_type e) = TY_STRUCT then ptrof (expr_type e) else expr_type e)"

text \<open>
  A state in which every label that names a variable has been handed out by
  \<open>alloc_label\<close>, and what is asked of \<open>gen_expr\<close>: it keeps such states so, and it
  neither removes a variable nor changes the scope, name, type or storage of one (it may
  add variables and set vregs).
\<close>

definition labels_handed_out :: "cg_state \<Rightarrow> bool" where
  "labels_handed_out st =
     (\<forall>vi \<in> set (scope_vars st). \<forall>k. vi_name vi = Label k \<longrightarrow> k < label_no st)"

definition same_variable :: "VarInfo \<Rightarrow> VarInfo \<Rightarrow> bool" where
  "same_variable a b =
     (vi_scope a = vi_scope b \<and> vi_name a = vi_name b \<and> vi_type a = vi_type b \<and>
      vi_storage a = vi_storage b)"

definition keeps_variables :: "gen_expr_fn \<Rightarrow> bool" where
  "keeps_variables ge =
     (\<forall>e st. (labels_handed_out st \<longrightarrow> labels_handed_out (snd (ge e st))) \<and>
             length (scope_vars st) \<le> length (scope_vars (snd (ge e st))) \<and>
             (\<forall>j < length (scope_vars st).
                same_variable (scope_vars (snd (ge e st)) ! j) (scope_vars st ! j)))"

text \<open>The temporary of type \<open>ty\<close> named \<open>name\<close> in scope \<open>scope\<close>, holding \<open>v\<close>.\<close>

definition temporary :: "nat \<Rightarrow> Name \<Rightarrow> Type \<Rightarrow> VReg option \<Rightarrow> VarInfo" where
  "temporary scope name ty v =
     \<lparr>vi_scope = scope, vi_name = name, vi_type = ty, vi_storage = 0, local_vreg = v\<rparr>"

section \<open>src/as/parse_asm.c: directives\<close>

text \<open>
  A \<open>const char *\<close> into a line is the list of characters up to the terminating NUL;
  \<open>*p\<close> of the empty list is the NUL. The classifiers are those of the C locale.
\<close>

definition peek :: "string \<Rightarrow> char" where
  "peek p = (case p of [] \<Rightarrow> CHR 0x00 | c # _ \<Rightarrow> c)"

definition isspace :: "char \<Rightarrow> bool" where
  "isspace c = (c \<in> set [CHR '' '', CHR 0x09, CHR 0x0A, CHR 0x0B, CHR 0x0C, CHR 0x0D])"

definition isdigit :: "char \<Rightarrow> bool" where
  "isdigit c = (48 \<le> (of_char c :: nat) \<and> (of_char c :: nat) \<le> 57)"

definition isalpha :: "char \<Rightarrow> bool" where
  "isalpha c = ((65 \<le> (of_char c :: nat) \<and> (of_char c :: nat) \<le> 90) \<or>
                (97 \<le> (of_char c :: nat) \<and> (of_char c :: nat) \<le> 122))"

definition skip_whitespace :: "string \<Rightarrow> string" where
  "skip_whitespace p = dropWhile isspace p"

definition is_label_first_chr :: "char \<Rightarrow> bool" where
  "is_label_first_chr c = (isalpha c \<or> c = CHR ''_'' \<or> c = CHR ''.'')"

definition is_label_chr :: "char \<Rightarrow> bool" where
  "is_label_chr c = (is_label_first_chr c \<or> isdigit c)"

text \<open>\<open>parse_label\<close>: \<open>None\<close> is the \<open>NULL\<close> result, otherwise the name and the new \<open>*pp\<close>.\<close>

definition parse_label :: "string \<Rightarrow> (Name \<times> string) option" where
  "parse_label p =
     (case p of
        [] \<Rightarrow> None
      | c # cs \<Rightarrow>
          if \<not> is_label_first_chr c then None
          else Some (Ident (c # takeWhile is_label_chr cs), dropWhile is_label_chr cs))"

text \<open>
  \<open>strtol(p, pp, 10)\<close> on a string that starts with a digit: the decimal digits are
  read and a value beyond \<open>LONG_MAX\<close> is returned as \<open>LONG_MAX\<close>.
\<close>

definition LONG_MAX :: int where
  "LONG_MAX = 2 ^ 63 - 1"

definition digit_val :: "char \<Rightarrow> int" where
  "digit_val c = int (of_char c) - 48"

definition strtol :: "string \<Rightarrow> int \<times> string" where
  "strtol p =
     (min LONG_MAX (foldl (\<lambda>a c. 10 * a + digit_val c) 0 (takeWhile isdigit p)),
      dropWhile isdigit p)"

definition parse_immediate :: "string \<Rightarrow> (int \<times> string) option" where
  "parse_immediate p0 =
     (let negative = (peek p0 = CHR ''-'');
          p = (if negative then tl p0 else p0)
      in if \<not> isdigit (peek p) then None
         else let (v, rest) = strtol p in Some (if negative then - v else v, rest))"

datatype DirectiveType =
    NODIRECTIVE
  | DT_ASCII | DT_SECTION | DT_TEXT | DT_DATA | DT_ALIGN
  | DT_BYTE | DT_WORD | DT_LONG | DT_QUAD
  | DT_COMM | DT_GLOBL | DT_EXTERN

datatype SectionType = SEC_CODE | SEC_DATA | SEC_BSS

text \<open>
  The assembler's \<open>IR\<close> of \<open>ir_asm.h\<close>; the \<open>new_ir_*\<close> constructors are the
  datatype's. \<open>new_ir_bss\<close> takes a \<open>size_t\<close> and \<open>new_ir_align\<close> an \<open>int\<close>, so the
  \<open>long\<close> operands are converted.
\<close>

datatype IR =
    IR_LABEL Name
  | IR_CODE "byte list"
  | IR_DATA "byte list"
  | IR_BSS uint64
  | IR_ALIGN int32
  | IR_ABS_QUAD Name

record asm_state =
  current_section :: SectionType
  section_irs :: "SectionType \<Rightarrow> IR list"

definition vec_push :: "SectionType \<Rightarrow> IR \<Rightarrow> asm_state \<Rightarrow> asm_state" where
  "vec_push sec ir st = st\<lparr>section_irs := (section_irs st)(sec := section_irs st sec @ [ir])\<rparr>"

definition unescape_char :: "char \<Rightarrow> char" where
  "unescape_char c =
     (if c = CHR ''0'' then CHR 0x00
      else if c = CHR ''n'' then CHR 0x0A
      else if c = CHR ''t'' then CHR 0x09
      else if c = CHR ''r'' then CHR 0x0D
      else c)"

text \<open>
  \<open>unescape_string\<close>: \<open>error\<close> ends the run at a NUL; a backslash directly before the
  NUL makes the loop step over the terminator, which is reported as an error too.
\<close>

fun unescape_string :: "string \<Rightarrow> string + string" where
  "unescape_string [] = Inl ''string not closed''"
| "unescape_string (c # cs) =
     (if c = CHR 0x22 then Inr []
      else if c = CHR 0x5C then
        (case cs of
           [] \<Rightarrow> Inl ''read past the end of the line''
         | e # rest \<Rightarrow> (case unescape_string rest of
               Inl m \<Rightarrow> Inl m
             | Inr out \<Rightarrow> Inr (unescape_char e # out)))
      else (case unescape_string cs of
               Inl m \<Rightarrow> Inl m
             | Inr out \<Rightarrow> Inr (c # out)))"

definition char_byte :: "char \<Rightarrow> byte" where
  "char_byte c = of_char c"

text \<open>The bytes \<open>buf[i] = value >> (8 * i)\<close> of \<open>.byte\<close>, \<open>.word\<close>, \<open>.long\<close>, \<open>.quad\<close>.\<close>

definition value_bytes :: "nat \<Rightarrow> int \<Rightarrow> byte list" where
  "value_bytes n v = map (\<lambda>i. word_of_int (v div 2 ^ (8 * i))) [0..<n]"

fun data_size :: "DirectiveType \<Rightarrow> nat" where
  "data_size DT_BYTE = 1"
| "data_size DT_WORD = 2"
| "data_size DT_LONG = 4"
| "data_size DT_QUAD = 8"
| "data_size _ = 0"

text \<open>
  \<open>handle_directive\<close>. \<open>error\<close> (of util, not among the sources) reports the message
  and ends the process: \<open>Inl\<close> carries the message (the characters \<open>0x60\<close>, \<open>0x22\<close>
  and \<open>0x27\<close> are the backquote, the double quote and the quote of the messages). The
  \<open>default\<close> branch only prints.
\<close>

definition handle_directive :: "DirectiveType \<Rightarrow> string \<Rightarrow> asm_state \<Rightarrow> string + asm_state" where
  "handle_directive dir p st =
     (let irs = current_section st in
      case dir of
        DT_ASCII \<Rightarrow>
          if peek p \<noteq> CHR 0x22 then Inl ([CHR 0x60, CHR 0x22, CHR 0x27] @ '' expected'')
          else (case unescape_string (tl p) of
                  Inl m \<Rightarrow> Inl m
                | Inr str \<Rightarrow> Inr (vec_push irs (IR_DATA (map char_byte str)) st))
      | DT_COMM \<Rightarrow>
          (case parse_label p of
             None \<Rightarrow> Inl ''.comm: label expected''
           | Some (label, p1) \<Rightarrow>
               let p2 = skip_whitespace p1 in
               if peek p2 \<noteq> CHR '','' then Inl (''.comm: '' @ [CHR 0x60, CHR '','', CHR 0x27] @ '' expected'')
               else (case parse_immediate (skip_whitespace (tl p2)) of
                       None \<Rightarrow> Inl ''.comm: count expected''
                     | Some (count, p3) \<Rightarrow>
                         let st1 = st\<lparr>current_section := SEC_BSS\<rparr>;
                             irs = current_section st1
                         in Inr (vec_push irs (IR_BSS (word_of_int count))
                                  (vec_push irs (IR_LABEL label) st1))))
      | DT_TEXT \<Rightarrow> Inr (st\<lparr>current_section := SEC_CODE\<rparr>)
      | DT_DATA \<Rightarrow> Inr (st\<lparr>current_section := SEC_DATA\<rparr>)
      | DT_ALIGN \<Rightarrow>
          (case parse_immediate p of
             None \<Rightarrow> Inl ''.align: number expected''
           | Some (align, p1) \<Rightarrow> Inr (vec_push irs (IR_ALIGN (word_of_int align)) st))
      | DT_SECTION \<Rightarrow> Inr st
      | DT_GLOBL \<Rightarrow> Inr st
      | DT_EXTERN \<Rightarrow> Inr st
      | NODIRECTIVE \<Rightarrow> Inr st
      | _ \<Rightarrow>
          (case parse_immediate p of
             Some (v, p1) \<Rightarrow> Inr (vec_push irs (IR_DATA (value_bytes (data_size dir) v)) st)
           | None \<Rightarrow>
               (case parse_label p of
                  Some (label, p1) \<Rightarrow>
                    if dir = DT_QUAD then Inr (vec_push irs (IR_ABS_QUAD label) st)
                    else Inl ''label can use only in .quad''
                | None \<Rightarrow> Inl ''.quad: number or label expected'')))"

text \<open>
  Modelled from the spec: the loop over the lines of a file is in \<open>as.c\<close>, which is not
  among the sources. Following the spec's per-section IR, a line is a directive, handed
  to \<open>handle_directive\<close>, or an instruction, whose code record is appended to the
  list of the section that \<open>current_section\<close> names.
\<close>

datatype Line = Directive DirectiveType string | Instruction "byte list"

fun handle_line :: "Line \<Rightarrow> asm_state \<Rightarrow> string + asm_state" where
  "handle_line (Directive dir p) st = handle_directive dir p st"
| "handle_line (Instruction code) st = Inr (vec_push (current_section st) (IR_CODE code) st)"

fun handle_lines :: "Line list \<Rightarrow> asm_state \<Rightarrow> string + asm_state" where
  "handle_lines [] st = Inr st"
| "handle_lines (l # ls) st =
     (case handle_line l st of Inl m \<Rightarrow> Inl m | Inr st' \<Rightarrow> handle_lines ls st')"

fun switches_section :: "Line \<Rightarrow> bool" where
  "switches_section (Directive DT_TEXT _) = True"
| "switches_section (Directive DT_DATA _) = True"
| "switches_section _ = False"

text \<open>The section that \<open>.text\<close> and \<open>.data\<close> make current.\<close>

fun switch_target :: "DirectiveType \<Rightarrow> SectionType" where
  "switch_target DT_DATA = SEC_DATA"
| "switch_target _ = SEC_CODE"

fun is_comm :: "Line \<Rightarrow> bool" where
  "is_comm (Directive DT_COMM _) = True"
| "is_comm _ = False"

text \<open>
  The records a line stands for, read off the line alone and not off the assembler's
  state, after the spec's list of records (label, code, data, bss, align, abs-quad): an
  instruction is a code record of its bytes; \<open>.ascii\<close> is a data record of the
  characters of its string; \<open>.byte\<close>, \<open>.word\<close>, \<open>.long\<close> and \<open>.quad\<close> with a number
  are a data record of 1, 2, 4 and 8 bytes, least significant byte first; \<open>.quad\<close> with a
  label is an abs-quad record; \<open>.align\<close> is an align record; \<open>.comm\<close> is a label and a
  bss record; every other directive stands for no record.
\<close>

fun little_endian :: "nat \<Rightarrow> int \<Rightarrow> byte list" where
  "little_endian 0 v = []"
| "little_endian (Suc n) v = word_of_int v # little_endian n (v div 256)"

definition number_or_label :: "nat \<Rightarrow> string \<Rightarrow> IR list" where
  "number_or_label width p =
     (case parse_immediate p of
        Some (v, _) \<Rightarrow> [IR_DATA (little_endian width v)]
      | None \<Rightarrow> (case parse_label p of Some (label, _) \<Rightarrow> [IR_ABS_QUAD label] | None \<Rightarrow> []))"

fun line_records :: "Line \<Rightarrow> IR list" where
  "line_records (Instruction code) = [IR_CODE code]"
| "line_records (Directive DT_ASCII p) =
     (case unescape_string (tl p) of Inr str \<Rightarrow> [IR_DATA (map char_byte str)] | Inl _ \<Rightarrow> [])"
| "line_records (Directive DT_BYTE p) = number_or_label 1 p"
| "line_records (Directive DT_WORD p) = number_or_label 2 p"
| "line_records (Directive DT_LONG p) = number_or_label 4 p"
| "line_records (Directive DT_QUAD p) = number_or_label 8 p"
| "line_records (Directive DT_ALIGN p) =
     (case parse_immediate p of Some (n, _) \<Rightarrow> [IR_ALIGN (word_of_int n)] | None \<Rightarrow> [])"
| "line_records (Directive DT_COMM p) =
     (case parse_label p of
        None \<Rightarrow> []
      | Some (label, p1) \<Rightarrow>
         (case parse_immediate (skip_whitespace (tl (skip_whitespace p1))) of
            None \<Rightarrow> []
          | Some (count, _) \<Rightarrow> [IR_LABEL label, IR_BSS (word_of_int count)]))"
| "line_records (Directive _ p) = []"

section \<open>wasm/src/wcc.c: the module emitter\<close>

text \<open>
  Modelled from the spec: \<open>data_push\<close>, \<open>data_append\<close> and \<open>data_concat\<close> of util
  are not among the sources; they append a byte, a byte array and another buffer.
  \<open>fwrite\<close> appends to the bytes written to the output file so far.
\<close>

definition data_push :: "DataStorage \<Rightarrow> byte \<Rightarrow> DataStorage" where
  "data_push d b = d @ [b]"

definition data_append :: "DataStorage \<Rightarrow> byte list \<Rightarrow> DataStorage" where
  "data_append d bs = d @ bs"

definition data_concat :: "DataStorage \<Rightarrow> DataStorage \<Rightarrow> DataStorage" where
  "data_concat d src = d @ src"

definition fwrite :: "byte list \<Rightarrow> byte list \<Rightarrow> byte list" where
  "fwrite bs ofp = ofp @ bs"

text \<open>
  Modelled from the spec: the section ids of \<open>wasm_util.h\<close> and the preamble written by
  \<open>emit_wasm_header\<close> (neither among the sources): ``Type (1), Import (2), Function
  (3), Global (6), Export (7), Code (10)'' and ``magic \<open>00 61 73 6d\<close>, version
  \<open>01 00 00 00\<close>''.
\<close>

definition SEC_TYPE :: byte where "SEC_TYPE = 1"
definition SEC_IMPORT :: byte where "SEC_IMPORT = 2"
definition SEC_FUNC :: byte where "SEC_FUNC = 3"
definition SEC_GLOBAL :: byte where "SEC_GLOBAL = 6"
definition SEC_EXPORT :: byte where "SEC_EXPORT = 7"
definition SEC_CODE_wasm :: byte where "SEC_CODE_wasm = 10"

definition emit_wasm_header :: "byte list \<Rightarrow> byte list" where
  "emit_wasm_header ofp = fwrite [0x00, 0x61, 0x73, 0x6d, 0x01, 0x00, 0x00, 0x00] ofp"

definition bindE :: "'e + 'a \<Rightarrow> ('a \<Rightarrow> 'e + 'b) \<Rightarrow> 'e + 'b" where
  "bindE m f = (case m of Inl e \<Rightarrow> Inl e | Inr x \<Rightarrow> f x)"

text \<open>
  An entry of \<open>func_info_table\<close> as \<open>emit_wasm\<close> reads it after the first loop:
  \<open>flag\<close>, the function's code buffer (\<open>func->bbcon\<close>, \<open>None\<close> when \<open>func\<close> is
  \<open>NULL\<close>) and the \<open>type_index\<close> (an \<open>int\<close>, widened to \<open>uint64_t\<close> at the call).
\<close>

record FuncInfo =
  flag :: int
  func :: "DataStorage option"
  type_index :: int32

text \<open>
  The loops that build the payloads of the type, import, global and export sections
  read types, scopes and initialisers through functions that are not among the sources.
  Their results are the input of the model: each payload as it stands when its loop ends
  (the export payload already starts with the number of exports), with the counters the
  loops leave.
\<close>

record wasm_sections =
  types_section :: DataStorage
  types_len :: int32
  imports_section :: DataStorage
  imports_count :: uint32
  globals_section :: DataStorage
  globals_count :: uint32
  exports_section :: DataStorage
  func_info_table :: "FuncInfo list"

text \<open>The loop that builds the function section.\<close>

fun functions_loop ::
  "FuncInfo list \<Rightarrow> uint32 \<Rightarrow> DataStorage \<Rightarrow> leb_error + (uint32 \<times> DataStorage)" where
  "functions_loop [] function_count sec = Inr (function_count, sec)"
| "functions_loop (info # rest) function_count sec =
     (if func info = None \<or> flag info = 0 then functions_loop rest function_count sec
      else bindE (emit_uleb128 sec (length sec) (scast (type_index info)))
             (functions_loop rest (function_count + 1)))"

text \<open>The loop that adds up \<open>total_code_size\<close> (a \<open>size_t\<close>).\<close>

fun code_size_loop :: "FuncInfo list \<Rightarrow> uint64 \<Rightarrow> uint64" where
  "code_size_loop [] acc = acc"
| "code_size_loop (info # rest) acc =
     (case func info of
        None \<Rightarrow> code_size_loop rest acc
      | Some code \<Rightarrow>
          if flag info = 0 then code_size_loop rest acc
          else code_size_loop rest (acc + of_nat (length code)))"

text \<open>The final loop, which writes the function bodies.\<close>

fun bodies_loop :: "FuncInfo list \<Rightarrow> byte list \<Rightarrow> byte list" where
  "bodies_loop [] ofp = ofp"
| "bodies_loop (info # rest) ofp =
     (case func info of
        None \<Rightarrow> bodies_loop rest ofp
      | Some code \<Rightarrow>
          if flag info = 0 then bodies_loop rest ofp
          else bodies_loop rest (fwrite code ofp))"

text \<open>
  \<open>emit_wasm\<close> from the point where the payloads are built: the count and size
  prefixes, ``Combine all sections'', and the code section. The result is what has
  been written to \<open>ofp\<close>.
\<close>

definition emit_wasm :: "wasm_sections \<Rightarrow> leb_error + byte list" where
  "emit_wasm inp =
     (let ofp = emit_wasm_header [] in
      bindE (emit_uleb128 (types_section inp) 0 (scast (types_len inp))) (\<lambda>types1.
      bindE (emit_uleb128 types1 0 (of_nat (length types1))) (\<lambda>types2.
      bindE (if 0 < imports_count inp
             then bindE (emit_uleb128 (imports_section inp) 0 (ucast (imports_count inp)))
                    (\<lambda>i1. emit_uleb128 i1 0 (of_nat (length i1)))
             else Inr (imports_section inp)) (\<lambda>imports2.
      bindE (functions_loop (func_info_table inp) 0 []) (\<lambda>(function_count, functions0).
      bindE (emit_uleb128 functions0 0 (ucast function_count)) (\<lambda>functions1.
      bindE (emit_uleb128 functions1 0 (of_nat (length functions1))) (\<lambda>functions2.
      bindE (if 0 < globals_count inp
             then bindE (emit_uleb128 (globals_section inp) 0 (ucast (globals_count inp)))
                    (\<lambda>g1. emit_uleb128 g1 0 (of_nat (length g1)))
             else Inr (globals_section inp)) (\<lambda>globals2.
      bindE (emit_uleb128 (exports_section inp) 0 (of_nat (length (exports_section inp))))
        (\<lambda>exports2.
      let sections0 = data_concat (data_push [] SEC_TYPE) types2;
          sections1 = (if 0 < imports_count inp
                       then data_append (data_push sections0 SEC_IMPORT) imports2
                       else sections0);
          sections2 = data_append (data_push sections1 SEC_FUNC) functions2;
          sections3 = (if 0 < globals_count inp
                       then data_append (data_push sections2 SEC_GLOBAL) globals2
                       else sections2);
          sections4 = data_append (data_push sections3 SEC_EXPORT) exports2;
          ofp1 = fwrite sections4 ofp;
          codesec0 = data_push [] SEC_CODE_wasm;
          size_pos = length codesec0;
          total_code_size = code_size_loop (func_info_table inp) 0
      in
      bindE (emit_uleb128 codesec0 (length codesec0) (ucast function_count)) (\<lambda>codesec1.
      bindE (emit_uleb128 codesec1 size_pos
               (of_nat (length codesec1 - size_pos) + total_code_size)) (\<lambda>codesec2.
      Inr (bodies_loop (func_info_table inp) (fwrite codesec2 ofp1)))))))))))))"

text \<open>
  The functions of the module: the entries of the table that have a body and whose flag
  is set. Their number is kept in a \<open>uint32_t\<close>; their bodies follow one another in
  table order.
\<close>

definition written_functions :: "FuncInfo list \<Rightarrow> FuncInfo list" where
  "written_functions tbl = filter (\<lambda>info. func info \<noteq> None \<and> flag info \<noteq> 0) tbl"

definition number_of_functions :: "FuncInfo list \<Rightarrow> uint32" where
  "number_of_functions tbl = of_nat (length (written_functions tbl))"

definition function_bodies :: "FuncInfo list \<Rightarrow> byte list" where
  "function_bodies tbl =
     concat (map (\<lambda>info. case func info of None \<Rightarrow> [] | Some code \<Rightarrow> code)
               (written_functions tbl))"

text \<open>\<open>uleb v bs\<close>: \<open>bs\<close> are the bytes \<open>emit_uleb128\<close> produces for \<open>v\<close>.\<close>

definition uleb :: "uint64 \<Rightarrow> byte list \<Rightarrow> bool" where
  "uleb v bs = (uleb128_loop [] v = Inr bs)"

text \<open>
  A section with a count: the id, the size of what follows as LEB128, the count as
  LEB128, the payload.
\<close>

definition counted_section :: "byte \<Rightarrow> uint64 \<Rightarrow> byte list \<Rightarrow> byte list \<Rightarrow> bool" where
  "counted_section sid n payload bs =
     (\<exists>sz cnt. uleb n cnt \<and> uleb (of_nat (length (cnt @ payload))) sz \<and>
        bs = sid # sz @ cnt @ payload)"

text \<open>
  The payload of the function section: the type index of every function of the module as
  LEB128, in table order.
\<close>

definition type_indices :: "FuncInfo list \<Rightarrow> byte list \<Rightarrow> bool" where
  "type_indices tbl payload =
     (\<exists>bss. list_all2 (\<lambda>info bs. uleb (scast (type_index info)) bs) (written_functions tbl) bss
        \<and> payload = concat bss)"

section \<open>wasm/src/wcc.c: \<open>main\<close>\<close>

text \<open>
  Modelled from the spec: \<open>error\<close> of util is not among the sources. Following
  ``Exit code 0 on success, 1 on any diagnostic'' and ``emit errors are fatal
  immediately'', a call of \<open>error\<close> reports its message and ends the process with
  status 1.

  How a process ends: it exits with a status; or a failed \<open>assert\<close> aborts it; or it has
  written beyond a buffer (the five bytes of \<open>emit_leb128\<close> and \<open>emit_uleb128\<close>), after
  which C defines nothing. What it leaves behind: how it ended, the diagnostics it
  reported, and how far the output file got (not opened, opened but not completed, or
  holding the whole module).
\<close>

datatype output_file = NotOpened | Incomplete | Module "byte list"

datatype ending = Exit int | Abort | Undefined

record outcome =
  ended :: ending
  diagnostics :: "string list"
  written :: output_file

definition error_exit :: "string \<Rightarrow> output_file \<Rightarrow> outcome" where
  "error_exit msg out = \<lparr>ended = Exit 1, diagnostics = [msg], written = out\<rparr>"

text \<open>
  The stages that read the sources and the tables of the compiler (\<open>parse\<close>,
  \<open>traverse_ast\<close>, \<open>gen\<close>, and the loops of \<open>emit_wasm\<close> that build the payloads of the
  sections, with \<open>construct_primitive_global\<close>) and the file system are the
  environment. A stage completes with its result, or calls \<open>error\<close> with a message, or
  fails one of its assertions, or overruns a LEB128 buffer.
\<close>

datatype 'a stage = Completed 'a | Failed string | Asserted | Overran

record environment =
  can_read :: "string \<Rightarrow> bool"
  can_write :: "string \<Rightarrow> bool"
  parse_file :: "string \<Rightarrow> unit stage"
  traverse_ast :: "string list \<Rightarrow> unit stage"
  gen :: "unit stage"
  build_sections :: "string list \<Rightarrow> wasm_sections stage"

text \<open>The end of the process in a stage that does not complete.\<close>

definition stopped :: "'a stage \<Rightarrow> output_file \<Rightarrow> outcome" where
  "stopped r out =
     (case r of
        Failed msg \<Rightarrow> error_exit msg out
      | Asserted \<Rightarrow> \<lparr>ended = Abort, diagnostics = [''Assertion failed''], written = out\<rparr>
      | _ \<Rightarrow> \<lparr>ended = Undefined, diagnostics = [], written = out\<rparr>)"

record wcc_options =
  ofn :: string
  exports :: "string list option"
  verbose :: bool

definition starts_with :: "string \<Rightarrow> string \<Rightarrow> bool" where
  "starts_with s pre = (take (length pre) s = pre)"

text \<open>The \<open>strchr\<close> loop of the \<open>-e\<close> option: the names between the commas.\<close>

function split_commas :: "string \<Rightarrow> string list" where
  "split_commas s =
     (case dropWhile (\<lambda>c. c \<noteq> CHR '','') s of
        [] \<Rightarrow> [s]
      | _ # rest \<Rightarrow> takeWhile (\<lambda>c. c \<noteq> CHR '','') s # split_commas rest)"
  by pat_completeness auto
termination
proof (relation "measure length")
  show "wf (measure length)" by simp
next
  fix s :: string and x21 x22
  assume "dropWhile (\<lambda>c. c \<noteq> CHR '','') s = x21 # x22"
  then have "length (x21 # x22) \<le> length s"
    by (metis length_dropWhile_le)
  then show "(x22, s) \<in> measure length" by simp
qed

declare split_commas.simps [simp del]

text \<open>
  The option loop; \<open>Inl\<close> is the \<open>Unknown option\<close> report followed by \<open>return 1\<close>,
  \<open>Inr\<close> the options together with the arguments from \<open>iarg\<close> on.
\<close>

fun parse_options :: "string list \<Rightarrow> wcc_options \<Rightarrow> string + (wcc_options \<times> string list)" where
  "parse_options [] opts = Inr (opts, [])"
| "parse_options (arg # rest) opts =
     (if peek arg \<noteq> CHR ''-'' then Inr (opts, arg # rest)
      else if starts_with arg ''-o'' then parse_options rest (opts\<lparr>ofn := drop 2 arg\<rparr>)
      else if starts_with arg ''-e'' \<and> peek (drop 2 arg) \<noteq> CHR 0x00
        then parse_options rest (opts\<lparr>exports := Some (split_commas (drop 2 arg))\<rparr>)
      else if arg = ''--verbose'' then parse_options rest (opts\<lparr>verbose := True\<rparr>)
      else Inl (''Unknown option: '' @ arg))"

text \<open>The loop over the source files; \<open>*stdin*\<close> stands for the standard input.\<close>

fun compile_files :: "environment \<Rightarrow> string list \<Rightarrow> unit stage" where
  "compile_files env [] = Completed ()"
| "compile_files env (filename # rest) =
     (if \<not> can_read env filename then Failed (''Cannot open file: '' @ filename)
      else case parse_file env filename of
          Completed _ \<Rightarrow> compile_files env rest
        | r \<Rightarrow> r)"

text \<open>
  \<open>main\<close>. \<open>then_stage\<close> runs a stage and goes on when it completes. After the output
  file is opened, \<open>emit_wasm\<close> runs: its payload loops are the stage \<open>build_sections\<close>,
  and what follows them is the function \<open>emit_wasm\<close> above, whose \<open>Inl\<close> is an overrun of
  the LEB128 buffer and whose \<open>Inr\<close> holds the bytes of the module.
\<close>

definition then_stage :: "'a stage \<Rightarrow> output_file \<Rightarrow> ('a \<Rightarrow> outcome) \<Rightarrow> outcome" where
  "then_stage r out continue =
     (case r of Completed x \<Rightarrow> continue x | _ \<Rightarrow> stopped r out)"

definition main :: "environment \<Rightarrow> string list \<Rightarrow> outcome" where
  "main env argv =
     (case parse_options (drop 1 argv) \<lparr>ofn = ''a.wasm'', exports = None, verbose = False\<rparr> of
        Inl msg \<Rightarrow> \<lparr>ended = Exit 1, diagnostics = [msg], written = NotOpened\<rparr>
      | Inr (opts, files) \<Rightarrow>
         (case exports opts of
            None \<Rightarrow> error_exit ''no exports (require -e<xxx>)'' NotOpened
          | Some exps \<Rightarrow>
              then_stage (if files \<noteq> [] then compile_files env files
                          else parse_file env ''*stdin*'') NotOpened (\<lambda>_.
              then_stage (traverse_ast env exps) NotOpened (\<lambda>_.
              then_stage (gen env) NotOpened (\<lambda>_.
              if \<not> can_write env (ofn opts)
              then error_exit ''Cannot open output file'' NotOpened
              else then_stage (build_sections env exps) Incomplete (\<lambda>inp.
                case emit_wasm inp of
                  Inl _ \<Rightarrow> \<lparr>ended = Undefined, diagnostics = [], written = Incomplete\<rparr>
                | Inr bytes \<Rightarrow> \<lparr>ended = Exit 0, diagnostics = [],
                                written = Module bytes\<rparr>))))))"

text \<open>
  What the successful run of \<open>main\<close> is: the options are read and name the exports, every
  stage completes, the output file can be opened, and \<open>emit_wasm\<close> returns the bytes
  of the module.
\<close>

definition succeeds :: "environment \<Rightarrow> string list \<Rightarrow> byte list \<Rightarrow> bool" where
  "succeeds env argv bytes =
     (\<exists>opts files exps inp.
        parse_options (drop 1 argv) \<lparr>ofn = ''a.wasm'', exports = None, verbose = False\<rparr>
          = Inr (opts, files) \<and>
        exports opts = Some exps \<and>
        (if files \<noteq> [] then compile_files env files else parse_file env ''*stdin*'')
          = Completed () \<and>
        traverse_ast env exps = Completed () \<and> gen env = Completed () \<and>
        can_write env (ofn opts) \<and>
        build_sections env exps = Completed inp \<and> emit_wasm inp = Inr bytes)"

text \<open>A diagnostic comes with exit status 1 or with the abort of a failed assertion.\<close>

definition reported :: "outcome \<Rightarrow> bool" where
  "reported r = (diagnostics r \<noteq> [] \<longrightarrow> ended r = Exit 1 \<or> ended r = Abort)"

text \<open>
  An argument that supplies export names: one of the leading options (those before the
  first argument that does not start with \<open>-\<close>) of the form \<open>-e\<close> followed by at
  least one character (the character after \<open>-e\<close> is not the terminating NUL).
\<close>

definition leading_options :: "string list \<Rightarrow> string list" where
  "leading_options argv = takeWhile (\<lambda>arg. peek arg = CHR ''-'') (drop 1 argv)"

definition supplies_exports :: "string \<Rightarrow> bool" where
  "supplies_exports arg = (starts_with arg ''-e'' \<and> peek (drop 2 arg) \<noteq> CHR 0x00)"

definition recognised_option :: "string \<Rightarrow> bool" where
  "recognised_option arg =
     (starts_with arg ''-o'' \<or> supplies_exports arg \<or> arg = ''--verbose'')"

section \<open>src/cc/backend/regalloc.c: linear scan\<close>

text \<open>
  \<open>regalloc.h\<close> is not among the sources; the fields are those the code reads and
  writes. The \<open>intervals\<close> array is a list indexed by vreg number, and a
  \<open>LiveInterval *\<close> (an element of \<open>sorted_intervals\<close> or of an \<open>active\<close> array) is an
  index into it, so that an update through one pointer is seen through every other.
  \<open>ra->vregs\<close> is a list whose entries may be \<open>NULL\<close>; \<open>reg_param_mapping\<close> is the
  table from parameter index to register number.
\<close>

datatype LiveIntervalState = LI_NORMAL | LI_CONST | LI_SPILL

record LiveInterval =
  occupied_reg_bit :: uint64
  li_state :: LiveIntervalState
  li_start :: int
  li_end :: int
  li_virt :: nat
  li_phys :: int

record RegAlloc =
  vregs :: "VReg option list"
  reg_param_mapping :: "nat \<Rightarrow> int"
  phys_max :: int
  phys_temporary_count :: int
  fphys_max :: int
  fphys_temporary_count :: int
  used_reg_bits :: uint64
  used_freg_bits :: uint64

record PhysicalRegisterSet =
  active :: "nat list"
  prs_phys_max :: int
  phys_temporary :: int
  using_bits :: uint64
  used_bits :: uint64

text \<open>
  \<open>active_count\<close> is the length of \<open>active\<close>. What C leaves undefined is an error of
  the model: a shift \<open>1UL << n\<close> with \<open>n\<close> outside \<open>0..63\<close>, an index outside
  \<open>ra->vregs\<close>, and a store beyond the \<open>phys_max\<close> slots of the \<open>ALLOCA\<close>'d \<open>active\<close>
  array. A failed \<open>assert\<close> is an error as well.
\<close>

datatype ra_error = AssertionFailed | ShiftOutOfRange | OutOfBounds

definition bit1 :: "int \<Rightarrow> uint64" where
  "bit1 n = push_bit (nat n) 1"

definition shift_ok :: "int \<Rightarrow> bool" where
  "shift_ok n = (0 \<le> n \<and> n < 64)"

definition insert_active :: "LiveInterval list \<Rightarrow> nat list \<Rightarrow> nat \<Rightarrow> nat list" where
  "insert_active ivs act li =
     (let j = length (takeWhile (\<lambda>p. \<not> li_end (ivs ! li) < li_end (ivs ! p)) act)
      in take j act @ [li] @ drop j act)"

definition remove_active :: "nat list \<Rightarrow> nat \<Rightarrow> nat \<Rightarrow> ra_error + nat list" where
  "remove_active act first n =
     (if n = 0 then Inr act
      else if length act < first + n then Inl AssertionFailed
      else Inr (take first act @ drop (first + n) act))"

definition split_at_interval ::
  "RegAlloc \<Rightarrow> LiveInterval list \<Rightarrow> nat list \<Rightarrow> nat
     \<Rightarrow> ra_error + (LiveInterval list \<times> nat list)" where
  "split_at_interval ra ivs act li =
     (if act = [] then Inl AssertionFailed
      else let spill = last act in
        if li_end (ivs ! spill) > li_end (ivs ! li) then
          (let ivs1 = ivs[li := (ivs ! li)\<lparr>li_phys := li_phys (ivs ! spill)\<rparr>];
               ivs2 = ivs1[spill := (ivs1 ! spill)\<lparr>li_phys := phys_max ra, li_state := LI_SPILL\<rparr>]
           in Inr (ivs2, insert_active ivs2 (butlast act) li))
        else
          Inr (ivs[li := (ivs ! li)\<lparr>li_phys := phys_max ra, li_state := LI_SPILL\<rparr>], act))"

text \<open>
  The loop of \<open>expire_old_intervals\<close>: the number \<open>j\<close> of leading intervals that end at
  or before \<open>start\<close>, and \<open>using_bits\<close> with their registers cleared.
\<close>

fun expire_loop ::
  "LiveInterval list \<Rightarrow> nat list \<Rightarrow> int \<Rightarrow> uint64 \<Rightarrow> ra_error + (nat \<times> uint64)" where
  "expire_loop ivs [] start ub = Inr (0, ub)"
| "expire_loop ivs (li # rest) start ub =
     (if li_end (ivs ! li) > start then Inr (0, ub)
      else if \<not> shift_ok (li_phys (ivs ! li)) then Inl ShiftOutOfRange
      else case expire_loop ivs rest start (ub AND NOT (bit1 (li_phys (ivs ! li)))) of
          Inl e \<Rightarrow> Inl e
        | Inr (j, ub') \<Rightarrow> Inr (Suc j, ub'))"

definition expire_old_intervals ::
  "LiveInterval list \<Rightarrow> PhysicalRegisterSet \<Rightarrow> int \<Rightarrow> ra_error + PhysicalRegisterSet" where
  "expire_old_intervals ivs p start =
     (case expire_loop ivs (active p) start (using_bits p) of
        Inl e \<Rightarrow> Inl e
      | Inr (j, ub) \<Rightarrow>
         (case remove_active (active p) 0 j of
            Inl e \<Rightarrow> Inl e
          | Inr act \<Rightarrow> Inr (p\<lparr>active := act, using_bits := ub\<rparr>)))"

text \<open>The search \<open>for (j = start_index; j < prsp->phys_max; ++j)\<close>; \<open>- 1\<close> when it finds none.\<close>

function find_free :: "uint64 \<Rightarrow> int \<Rightarrow> int \<Rightarrow> ra_error + int" where
  "find_free occupied j pmax =
     (if \<not> j < pmax then Inr (- 1)
      else if \<not> shift_ok j then Inl ShiftOutOfRange
      else if occupied AND bit1 j = 0 then Inr j
      else find_free occupied (j + 1) pmax)"
  by pat_completeness auto
termination
  by (relation "measure (\<lambda>(occupied, j, pmax). nat (pmax - j))") auto

declare find_free.simps [simp del]

definition vreg_at :: "RegAlloc \<Rightarrow> nat \<Rightarrow> ra_error + VReg option" where
  "vreg_at ra v = (if v < length (vregs ra) then Inr (vregs ra ! v) else Inl OutOfBounds)"

record scan_state =
  intervals :: "LiveInterval list"
  iregset :: PhysicalRegisterSet
  fregset :: PhysicalRegisterSet

text \<open>
  The parameter-register hint: the chosen register (\<open>- 1\<close> for none) and \<open>start_index\<close>.
\<close>

definition param_hint ::
  "RegAlloc \<Rightarrow> VReg \<Rightarrow> PhysicalRegisterSet \<Rightarrow> uint64 \<Rightarrow> ra_error + (int \<times> int)" where
  "param_hint ra vreg prsp occupied =
     (let ip0 = reg_param_index vreg in
      if ip0 \<ge> 0 then
        (let ip = (if VRTF_FLONUM (vtype vreg) then ip0 else reg_param_mapping ra (nat ip0)) in
         if ip \<ge> 0 then
           (if \<not> shift_ok ip then Inl ShiftOutOfRange
            else if occupied AND bit1 ip = 0 then Inr (ip, 0)
            else Inr (- 1, phys_temporary prsp))
         else Inr (- 1, phys_temporary prsp))
      else Inr (- 1, 0))"

text \<open>The branch \<open>regno >= 0\<close> or \<open>split_at_interval\<close>, on the selected register set.\<close>

definition assign_or_split ::
  "RegAlloc \<Rightarrow> LiveInterval list \<Rightarrow> PhysicalRegisterSet \<Rightarrow> nat \<Rightarrow> int
     \<Rightarrow> ra_error + (LiveInterval list \<times> PhysicalRegisterSet)" where
  "assign_or_split ra ivs0 prsp i regno =
     (if regno \<ge> 0 then
        (if \<not> shift_ok regno then Inl ShiftOutOfRange
         else if \<not> int (length (active prsp)) < prs_phys_max prsp then Inl OutOfBounds
         else let ivs1 = ivs0[i := (ivs0 ! i)\<lparr>li_phys := regno\<rparr>]
              in Inr (ivs1, prsp\<lparr>using_bits := using_bits prsp OR bit1 regno,
                                 active := insert_active ivs1 (active prsp) i\<rparr>))
      else case split_at_interval ra ivs0 (active prsp) i of
          Inl e \<Rightarrow> Inl e
        | Inr (ivs1, act) \<Rightarrow> Inr (ivs1, prsp\<lparr>active := act\<rparr>))"

text \<open>One iteration of the loop of \<open>linear_scan_register_allocation\<close>, for \<open>sorted_intervals[i]\<close>.\<close>

definition linear_scan_step :: "RegAlloc \<Rightarrow> nat \<Rightarrow> scan_state \<Rightarrow> ra_error + scan_state" where
  "linear_scan_step ra i st =
     (let li = intervals st ! i in
      case vreg_at ra (li_virt li) of
        Inl e \<Rightarrow> Inl e
      | Inr None \<Rightarrow> Inr st
      | Inr (Some vreg) \<Rightarrow>
          if li_state li \<noteq> LI_NORMAL then Inr st
          else
            bindE (expire_old_intervals (intervals st) (iregset st) (li_start li)) (\<lambda>ireg.
            bindE (expire_old_intervals (intervals st) (fregset st) (li_start li)) (\<lambda>freg.
            let fl = VRTF_FLONUM (vtype vreg);
                prsp = (if fl then freg else ireg);
                occupied = using_bits prsp OR occupied_reg_bit li
            in
            bindE (param_hint ra vreg prsp occupied) (\<lambda>(regno0, start_index).
            bindE (if regno0 < 0 then find_free occupied start_index (prs_phys_max prsp)
                   else Inr regno0) (\<lambda>regno.
            bindE (assign_or_split ra (intervals st) prsp i regno) (\<lambda>(ivs1, prsp1).
            let prsp2 = prsp1\<lparr>used_bits := used_bits prsp1 OR using_bits prsp1\<rparr>
            in Inr \<lparr>intervals = ivs1,
                    iregset = (if fl then ireg else prsp2),
                    fregset = (if fl then prsp2 else freg)\<rparr>))))))"

fun linear_scan_loop :: "RegAlloc \<Rightarrow> nat list \<Rightarrow> scan_state \<Rightarrow> ra_error + scan_state" where
  "linear_scan_loop ra [] st = Inr st"
| "linear_scan_loop ra (i # rest) st =
     (case linear_scan_step ra i st of
        Inl e \<Rightarrow> Inl e
      | Inr st' \<Rightarrow> linear_scan_loop ra rest st')"

definition scan_init :: "RegAlloc \<Rightarrow> LiveInterval list \<Rightarrow> scan_state" where
  "scan_init ra ivs0 =
     \<lparr>intervals = ivs0,
      iregset = \<lparr>active = [], prs_phys_max = phys_max ra,
                 phys_temporary = phys_temporary_count ra, using_bits = 0, used_bits = 0\<rparr>,
      fregset = \<lparr>active = [], prs_phys_max = fphys_max ra,
                 phys_temporary = fphys_temporary_count ra, using_bits = 0, used_bits = 0\<rparr>\<rparr>"

definition linear_scan_register_allocation ::
  "RegAlloc \<Rightarrow> nat list \<Rightarrow> LiveInterval list \<Rightarrow> ra_error + (RegAlloc \<times> LiveInterval list)" where
  "linear_scan_register_allocation ra sorted_intervals ivs0 =
     (case linear_scan_loop ra sorted_intervals (scan_init ra ivs0) of
        Inl e \<Rightarrow> Inl e
      | Inr st \<Rightarrow>
          Inr (ra\<lparr>used_reg_bits := used_bits (iregset st),
                  used_freg_bits := used_bits (fregset st)\<rparr>, intervals st))"

subsection \<open>What the scan guarantees\<close>

text \<open>
  An interval has a vreg when \<open>ra->vregs->data[li->virt]\<close> is not \<open>NULL\<close>; its class
  is floating when that vreg's type is flagged \<open>VRTF_FLONUM\<close>. An interval holds a
  register when it has a vreg and its state is \<open>LI_NORMAL\<close> (a spilled interval
  carries the sentinel \<open>ra->phys_max\<close>, a constant one is never given a register).
  Two intervals overlap when each starts strictly before the other ends.
\<close>

definition has_vreg :: "RegAlloc \<Rightarrow> LiveInterval \<Rightarrow> bool" where
  "has_vreg ra li = (li_virt li < length (vregs ra) \<and> vregs ra ! li_virt li \<noteq> None)"

definition is_float :: "RegAlloc \<Rightarrow> LiveInterval \<Rightarrow> bool" where
  "is_float ra li =
     (case vregs ra ! li_virt li of Some v \<Rightarrow> VRTF_FLONUM (vtype v) | None \<Rightarrow> False)"

definition holds_register :: "RegAlloc \<Rightarrow> LiveInterval \<Rightarrow> bool" where
  "holds_register ra li = (has_vreg ra li \<and> li_state li = LI_NORMAL)"

definition overlap :: "LiveInterval \<Rightarrow> LiveInterval \<Rightarrow> bool" where
  "overlap a b = (li_start a < li_end b \<and> li_start b < li_end a)"

text \<open>The register that the parameter hint of the loop body asks for, \<open>- 1\<close> for none.\<close>

definition hinted_register :: "RegAlloc \<Rightarrow> VReg \<Rightarrow> int" where
  "hinted_register ra vreg =
     (if reg_param_index vreg \<ge> 0
      then (if VRTF_FLONUM (vtype vreg) then reg_param_index vreg
            else reg_param_mapping ra (nat (reg_param_index vreg)))
      else - 1)"

text \<open>
  The invariant of the loop. \<open>D\<close> is the set of intervals handled so far and \<open>cur\<close>
  the start of the last of them. For the register set \<open>p\<close> of class \<open>c\<close>: the
  active intervals are distinct, handled, hold pairwise distinct registers of the class
  that are marked in \<open>using_bits\<close>, and are ordered by end; every handled interval of
  the class that holds a register and is no longer active ended at or before \<open>cur\<close>.
  \<open>same_ranges\<close> says that two interval arrays differ at most in \<open>phys\<close> and \<open>state\<close>.
\<close>

definition same_ranges :: "LiveInterval list \<Rightarrow> LiveInterval list \<Rightarrow> bool" where
  "same_ranges ivs ivs' =
     (length ivs' = length ivs \<and>
      (\<forall>k < length ivs. li_start (ivs' ! k) = li_start (ivs ! k) \<and>
         li_end (ivs' ! k) = li_end (ivs ! k) \<and> li_virt (ivs' ! k) = li_virt (ivs ! k) \<and>
         occupied_reg_bit (ivs' ! k) = occupied_reg_bit (ivs ! k)))"

definition set_inv ::
  "RegAlloc \<Rightarrow> bool \<Rightarrow> LiveInterval list \<Rightarrow> nat set \<Rightarrow> int \<Rightarrow> PhysicalRegisterSet \<Rightarrow> bool" where
  "set_inv ra c ivs D cur p =
     (distinct (active p) \<and>
      (\<forall>a \<in> set (active p). a \<in> D \<and> a < length ivs \<and> holds_register ra (ivs ! a) \<and>
          is_float ra (ivs ! a) = c \<and> shift_ok (li_phys (ivs ! a)) \<and>
          bit (using_bits p) (nat (li_phys (ivs ! a)))) \<and>
      inj_on (\<lambda>a. li_phys (ivs ! a)) (set (active p)) \<and>
      sorted_wrt (\<lambda>a b. li_end (ivs ! a) \<le> li_end (ivs ! b)) (active p) \<and>
      (\<forall>a \<in> D. holds_register ra (ivs ! a) \<and> is_float ra (ivs ! a) = c \<and>
          a \<notin> set (active p) \<longrightarrow> li_end (ivs ! a) \<le> cur))"

definition pair_inv :: "RegAlloc \<Rightarrow> LiveInterval list \<Rightarrow> nat set \<Rightarrow> bool" where
  "pair_inv ra ivs D =
     ((\<forall>a \<in> D. \<forall>b \<in> D. a \<noteq> b \<and> holds_register ra (ivs ! a) \<and> holds_register ra (ivs ! b) \<and>
          is_float ra (ivs ! a) = is_float ra (ivs ! b) \<and> overlap (ivs ! a) (ivs ! b)
          \<longrightarrow> li_phys (ivs ! a) \<noteq> li_phys (ivs ! b)) \<and>
      (\<forall>a \<in> D. holds_register ra (ivs ! a) \<longrightarrow> shift_ok (li_phys (ivs ! a))))"

definition scan_inv :: "RegAlloc \<Rightarrow> nat set \<Rightarrow> int \<Rightarrow> scan_state \<Rightarrow> bool" where
  "scan_inv ra D cur st =
     (set_inv ra False (intervals st) D cur (iregset st) \<and>
      set_inv ra True (intervals st) D cur (fregset st) \<and>
      pair_inv ra (intervals st) D)"

section \<open>src/cc/backend/regalloc.c: the allocation loop\<close>

text \<open>
  \<open>ir.h\<close> is not among the sources. The kinds of the compiler's IR are the enumerators
  that \<open>insert_load_store_spilled_irs\<close> names in its \<open>switch\<close>, so that its \<open>default\<close>
  branch (\<open>assert(false)\<close>) has no case left. The fields are those \<open>regalloc.c\<close> reads
  and writes. The assembler has an \<open>IR\<close> type of its own, hence the name \<open>IR_cc\<close> here.

  Objects that the code shares through pointers live in pools, and a pointer is the
  position in the pool: a \<open>VReg *\<close> is a position in \<open>ra->vregs\<close> (every vreg of a
  function is created by \<open>reg_alloc_spawn\<close>, which appends it there), an \<open>IR *\<close> is a
  position in the list of all IR objects of the function. A vector of pointers
  (\<open>bb->irs\<close>, \<open>bb->in_regs\<close>, \<open>bb->out_regs\<close>) is a list of positions. A position that
  names no object is an error of the model.
\<close>

datatype IrKind =
    IR_BOFS | IR_IOFS | IR_SOFS | IR_LOAD | IR_STORE
  | IR_ADD | IR_SUB | IR_MUL | IR_DIV | IR_MOD | IR_BITAND | IR_BITOR | IR_BITXOR
  | IR_LSHIFT | IR_RSHIFT | IR_CMP | IR_NEG | IR_BITNOT | IR_COND | IR_JMP | IR_TJMP
  | IR_PRECALL | IR_PUSHARG | IR_CALL | IR_RESULT | IR_SUBSP | IR_CAST | IR_MOV | IR_ASM
  | IR_LOAD_SPILLED | IR_STORE_SPILLED





subsection \<open>\<open>check_live_interval\<close>\<close>







subsection \<open>Marking constants and spilled vregs, and sorting\<close>






subsection \<open>\<open>detect_live_interval_flags\<close>\<close>








subsection \<open>Spilling\<close>

text \<open>
  Modelled from the spec: \<open>spill_vreg\<close> (\<open>ir.c\<close>) is not among the sources. By the spec
  a spilled vreg carries the spilled flag, and its frame offset is reserved later, when
  the prologue is emitted; so it sets the flag and nothing else.
\<close>

definition spill_vreg :: "VReg \<Rightarrow> VReg" where
  "spill_vreg vreg = vreg\<lparr>VRF_SPILLED := True\<rparr>"














subsection \<open>\<open>alloc_physical_registers\<close>\<close>




subsection \<open>What a pass does to the vregs\<close>







section \<open>Sample inputs\<close>

text \<open>Concrete types, states and operand evaluators at which the theorems are instantiated.\<close>

definition tyInt :: Type where
  "tyInt = \<lparr>kind = TY_FIXNUM, is_unsigned = False, type_size = 4, align_size = 4\<rparr>"

definition vtInt :: VRegType where
  "vtInt = \<lparr>vsize = 4, valign = 4, VRTF_FLONUM = False, VRTF_UNSIGNED = False\<rparr>"

definition literal_only :: "Expr \<Rightarrow> bool" where
  "literal_only e = (case e of EX_FIXNUM _ _ \<Rightarrow> True | EX_FLONUM _ _ \<Rightarrow> True
                     | EX_STR _ _ \<Rightarrow> True | _ \<Rightarrow> False)"

fun gen_expr_consts :: gen_expr_fn where
  "gen_expr_consts (EX_FIXNUM t v) st = (Some (new_const_vreg v vtInt 0), st)"
| "gen_expr_consts (Unary EX_CAST t (EX_FIXNUM t' v)) st = (Some (new_const_vreg v vtInt 1), st)"
| "gen_expr_consts _ st = (None, st)"

definition cg_init :: cg_state where
  "cg_init = \<lparr>emitted = [], label_no = 0, curscope = 0, scope_vars = []\<rparr>"

definition comm_st0 :: asm_state where
  "comm_st0 = \<lparr>current_section = SEC_DATA, section_irs = (\<lambda>_. [])(SEC_DATA := [IR_DATA [1]])\<rparr>"

definition comm_st1 :: asm_state where
  "comm_st1 = \<lparr>current_section = SEC_BSS,
      section_irs = (section_irs comm_st0)
        (SEC_BSS := section_irs comm_st0 SEC_BSS @ [IR_LABEL (Ident ''buf''), IR_BSS (word_of_int 16)])\<rparr>"

definition comm_lines :: "Line list" where
  "comm_lines = [Directive DT_QUAD ''258'', Instruction [0xC3], Directive DT_GLOBL ''buf'']"

definition comm_st2 :: asm_state where
  "comm_st2 = \<lparr>current_section = SEC_BSS,
      section_irs = (\<lambda>_. [])
        (SEC_DATA := [IR_DATA [1]],
         SEC_BSS := [IR_LABEL (Ident ''buf''), IR_BSS 16, IR_DATA [2, 1, 0, 0, 0, 0, 0, 0],
                     IR_CODE [0xC3]])\<rparr>"

definition comm_st3 :: asm_state where
  "comm_st3 = \<lparr>current_section = SEC_CODE,
      section_irs = (\<lambda>_. [])
        (SEC_DATA := [IR_DATA [1]],
         SEC_BSS := [IR_LABEL (Ident ''buf''), IR_BSS 16, IR_DATA [2, 1, 0, 0, 0, 0, 0, 0],
                     IR_CODE [0xC3]],
         SEC_CODE := [IR_CODE [0x90], IR_ALIGN 8])\<rparr>"

definition wasm_sample :: wasm_sections where
  "wasm_sample =
     \<lparr>types_section = [0x60, 0, 0], types_len = 1,
      imports_section = [], imports_count = 0,
      globals_section = [0x7f, 1, 0x41, 0, 0x0b], globals_count = 1,
      exports_section = [1, 1, 0x66, 0, 0],
      func_info_table =
        [\<lparr>flag = 1, func = Some [2, 0, 0x0b], type_index = 0\<rparr>,
         \<lparr>flag = 0, func = Some [4, 0, 0x41, 0, 0x0b], type_index = 0\<rparr>]\<rparr>"

definition wasm_sample_bytes :: "byte list" where
  "wasm_sample_bytes =
     [0, 97, 115, 109, 1, 0, 0, 0, 1, 4, 1, 96, 0, 0, 3, 2, 1, 0, 6, 6, 1, 127, 1, 65, 0, 11,
      7, 5, 1, 1, 102, 0, 0, 10, 4, 1, 2, 0, 11]"

definition quiet_env :: environment where
  "quiet_env =
     \<lparr>can_read = (\<lambda>_. True), can_write = (\<lambda>_. True), parse_file = (\<lambda>_. Completed ()),
      traverse_ast = (\<lambda>_. Completed ()), gen = Completed (),
      build_sections = (\<lambda>_. Completed wasm_sample)\<rparr>"

definition funarg_sample :: "Expr list" where
  "funarg_sample =
     [EX_FIXNUM tyInt 3,
      EX_FUNCALL tyInt (EX_VAR tyInt (Ident ''f'') 0) [],
      Unary EX_POSTINC tyInt (EX_VAR tyInt (Ident ''x'') 1)]"

definition funarg_result :: "Expr list" where
  "funarg_result =
     [EX_FIXNUM tyInt 3, EX_VAR tyInt (Label 0) 0, EX_VAR tyInt (Label 1) 0]"

definition vreg_sample :: "nat \<Rightarrow> VReg" where
  "vreg_sample n =
     \<lparr>virt = n, phys = - 1, fixnum = 0, vtype = vtInt, VRF_PARAM = False, VRF_REF = False,
      VRF_CONST = False, VRF_SPILLED = False, VRF_NO_SPILL = False,
      reg_param_index = - 1, frame_offset = 0\<rparr>"

definition gen_expr_sample :: gen_expr_fn where
  "gen_expr_sample e st = (Some (vreg_sample (label_no st)), st)"

definition funarg_state :: cg_state where
  "funarg_state =
     \<lparr>emitted = [], label_no = 2, curscope = 0,
      scope_vars =
        [\<lparr>vi_scope = 0, vi_name = Label 0, vi_type = tyInt, vi_storage = 0,
          local_vreg = Some (vreg_sample 1)\<rparr>,
         \<lparr>vi_scope = 0, vi_name = Label 1, vi_type = tyInt, vi_storage = 0,
          local_vreg = Some (vreg_sample 2)\<rparr>]\<rparr>"

definition ra_sample :: "nat \<Rightarrow> int \<Rightarrow> RegAlloc" where
  "ra_sample n pmax =
     \<lparr>vregs = map (\<lambda>i. Some (vreg_sample i)) [0..<n], reg_param_mapping = (\<lambda>_. - 1),
      phys_max = pmax, phys_temporary_count = 0, fphys_max = 0, fphys_temporary_count = 0,
      used_reg_bits = 0, used_freg_bits = 0\<rparr>"

definition interval_sample :: "nat \<Rightarrow> int \<Rightarrow> int \<Rightarrow> LiveInterval" where
  "interval_sample v s e =
     \<lparr>occupied_reg_bit = 0, li_state = LI_NORMAL, li_start = s, li_end = e, li_virt = v,
      li_phys = - 1\<rparr>"

definition scan_sample :: "LiveInterval list" where
  "scan_sample = [interval_sample 0 0 9, interval_sample 1 1 5, interval_sample 2 2 4]"

definition scan_sample_result :: "LiveInterval list" where
  "scan_sample_result =
     [(interval_sample 0 0 9)\<lparr>li_state := LI_SPILL, li_phys := 2\<rparr>,
      (interval_sample 1 1 5)\<lparr>li_phys := 1\<rparr>,
      (interval_sample 2 2 4)\<lparr>li_phys := 0\<rparr>]"

definition scan_sample_mid :: scan_state where
  "scan_sample_mid =
     \<lparr>intervals = [(interval_sample 0 0 9)\<lparr>li_phys := 0\<rparr>,
                   (interval_sample 1 1 5)\<lparr>li_phys := 1\<rparr>,
                   interval_sample 2 2 4],
      iregset = \<lparr>active = [1, 0], prs_phys_max = 2, phys_temporary = 0,
                 using_bits = 3, used_bits = 3\<rparr>,
      fregset = \<lparr>active = [], prs_phys_max = 0, phys_temporary = 0,
                 using_bits = 0, used_bits = 0\<rparr>\<rparr>"

definition scan_sample_end :: scan_state where
  "scan_sample_end =
     \<lparr>intervals = scan_sample_result,
      iregset = \<lparr>active = [2, 1], prs_phys_max = 2, phys_temporary = 0,
                 using_bits = 3, used_bits = 3\<rparr>,
      fregset = \<lparr>active = [], prs_phys_max = 0, phys_temporary = 0,
                 using_bits = 0, used_bits = 0\<rparr>\<rparr>"

definition touching_sample :: "LiveInterval list" where
  "touching_sample = [interval_sample 0 0 5, interval_sample 1 5 8]"


definition tmp_sample :: "nat \<Rightarrow> bool \<Rightarrow> VReg" where
  "tmp_sample i sp =
     \<lparr>virt = i, phys = - 1, fixnum = 0, vtype = vtInt, VRF_PARAM = False, VRF_REF = False,
      VRF_CONST = False, VRF_SPILLED = sp, VRF_NO_SPILL = True,
      reg_param_index = - 1, frame_offset = 0\<rparr>"

definition chain_vregs :: "nat \<Rightarrow> VReg option list" where
  "chain_vregs n =
     [Some (spill_vreg (vreg_sample 0)), Some (spill_vreg (vreg_sample 1)), Some (vreg_sample 2),
      Some (tmp_sample 3 False), Some (tmp_sample 4 False), Some (tmp_sample 5 False)]
     @ map (\<lambda>i. Some (tmp_sample (6 + i) (i < n))) [0..<Suc n]"














definition chain_spilled :: "nat \<Rightarrow> VReg option list" where
  "chain_spilled n =
     [Some (spill_vreg (vreg_sample 0)), Some (spill_vreg (vreg_sample 1)), Some (vreg_sample 2),
      Some (tmp_sample 3 False), Some (tmp_sample 4 False), Some (tmp_sample 5 False)]
     @ map (\<lambda>i. Some (tmp_sample (6 + i) True)) [0..<Suc n]"







section \<open>Theorems\<close>

subsection \<open>LEB128\<close>

text \<open>
  C1 (fails on the code). The claim asks that decoding what \<open>emit_uleb128\<close> writes
  gives the value back for every 64-bit unsigned value, and the same for
  \<open>emit_leb128\<close> on every 64-bit signed value. Both emitters collect the bytes in
  \<open>buf[5]\<close>: the unsigned value \<open>2^35\<close> and the signed value \<open>2^34\<close> need a sixth
  byte, whose store lies outside the array, so no byte sequence is produced at all.
\<close>

theorem emit_leb128_overruns_buf:
  "emit_uleb128 d pos (2 ^ 35) = Inl BufferOverrun \<and>
   emit_leb128 d pos (2 ^ 34) = Inl BufferOverrun"
  by (simp add: emit_uleb128_def emit_leb128_def uleb128_loop.simps leb128_loop.simps
      LEB_BUF_SIZE_def word_sless_alt word_sle_eq)

subsection \<open>Constant folding of comparisons\<close>

lemma fold_compare_holds:
  assumes "compare_offset k = Some n" and "\<not> fl"
  shows "fold_compare \<lparr>cond = cond_at n, COND_UNSIGNED = u, COND_FLONUM = fl\<rparr> a b
           = Inr (if compare_holds u k a b then COND_ANY else COND_NONE)"
  using assms
  by (cases k; cases u)
     (auto simp: fold_compare_def cond_at_def word_sless_alt word_sle_eq word_less_def
        word_le_def)

lemma fold_compare_swap:
  assumes "compare_offset k = Some n" and "\<not> fl" and "swap_cond (cond_at n) = Inr c"
  shows "fold_compare \<lparr>cond = c, COND_UNSIGNED = u, COND_FLONUM = fl\<rparr> b a
           = Inr (if compare_holds u k a b then COND_ANY else COND_NONE)"
  using assms
  by (cases k; cases u)
     (auto simp: fold_compare_def cond_at_def swap_cond_def word_sless_alt word_sle_eq
        word_less_def word_le_def)

text \<open>
  C6. Let \<open>lhs k rhs\<close> be a comparison that passes the assertions of
  \<open>gen_compare_expr\<close> (operand types of one kind, not both operands literal, no
  floating operand). \<open>e1\<close> and \<open>e2\<close> are the operands in the order the function
  evaluates them (swapped when \<open>lhs\<close> is a literal), \<open>a\<close> and \<open>b\<close> the payloads of the
  vregs of \<open>lhs\<close> and \<open>rhs\<close>. If both vregs are constant, the function returns
  \<open>COND_ANY\<close> when \<open>a k b\<close> holds and \<open>COND_NONE\<close> when it does not, compared unsigned
  when the operand type is an unsigned fixnum or a pointer and signed otherwise, and
  the state it leaves is the one left by evaluating the operands: no compare op is
  emitted.
\<close>

theorem gen_compare_expr_const_fold:
  assumes kinds: "kind (expr_type lhs) = kind (expr_type rhs)"
    and cmp: "k \<in> {EX_EQ, EX_NE, EX_LT, EX_LE, EX_GE, EX_GT}"
    and notboth: "\<not> (is_const lhs \<and> is_const rhs)"
    and order: "(e1, e2) = (if is_const lhs then (rhs, lhs) else (lhs, rhs))"
    and ev1: "ge e1 st = (Some v1, st1)"
    and ev2: "ge e2 st1 = (Some v2, st2)"
    and c1: "VRF_CONST v1" and c2: "VRF_CONST v2"
    and nf: "kind (expr_type e1) \<noteq> TY_FLONUM" "\<not> VRTF_FLONUM (vtype v1)"
      "\<not> VRTF_FLONUM (vtype v2)"
    and vals: "(a, b) = (if is_const lhs then (fixnum v2, fixnum v1)
                         else (fixnum v1, fixnum v2))"
  shows "gen_compare_expr is_const ge k lhs rhs st =
           Inr (\<lparr>cond = (if compare_holds (operand_unsigned (expr_type e1)) k a b
                          then COND_ANY else COND_NONE),
                 COND_UNSIGNED = False, COND_FLONUM = False\<rparr>, st2)"
proof -
  from cmp obtain n where n: "compare_offset k = Some n" by auto
  from cmp n obtain c where c: "swap_cond (cond_at n) = Inr c"
    by (auto simp: swap_cond_def cond_at_def)
  show ?thesis
  proof (cases "is_const lhs")
    case True
    with notboth have nr: "\<not> is_const rhs" by simp
    from True order vals have e: "e1 = rhs" "e2 = lhs" "a = fixnum v2" "b = fixnum v1"
      by simp_all
    show ?thesis
      using True nr n c kinds ev1 ev2 c1 c2 nf e
        fold_compare_swap[OF n _ c, where fl=False and u="operand_unsigned (expr_type rhs)"
          and a="fixnum v2" and b="fixnum v1"]
      by (simp add: gen_compare_expr_def is_flonum_def is_fixnum_def operand_unsigned_def
          Let_def)
  next
    case False
    from False order vals have e: "e1 = lhs" "e2 = rhs" "a = fixnum v1" "b = fixnum v2"
      by simp_all
    show ?thesis
      using False n kinds ev1 ev2 c1 c2 nf e
        fold_compare_holds[OF n, where fl=False and u="operand_unsigned (expr_type lhs)"
          and a="fixnum v1" and b="fixnum v2"]
      by (simp add: gen_compare_expr_def is_flonum_def is_fixnum_def operand_unsigned_def
          Let_def)
  qed
qed

text \<open>
  The theorem at \<open>3 < (int)7\<close> with signed 4-byte operands: the literal \<open>3\<close> is the
  left operand, so the operands are swapped and the condition becomes \<open>>\<close>; both
  vregs are constant and the answer is \<open>COND_ANY\<close>.
\<close>

theorem gen_compare_expr_const_fold_witness:
  "gen_compare_expr literal_only gen_expr_consts EX_LT
      (EX_FIXNUM tyInt 3) (Unary EX_CAST tyInt (EX_FIXNUM tyInt 7)) cg_init =
    Inr (\<lparr>cond = COND_ANY, COND_UNSIGNED = False, COND_FLONUM = False\<rparr>, cg_init)"
  using gen_compare_expr_const_fold [where is_const = literal_only and ge = gen_expr_consts
      and k = EX_LT and lhs = "EX_FIXNUM tyInt 3"
      and rhs = "Unary EX_CAST tyInt (EX_FIXNUM tyInt 7)"
      and ?e1.0 = "Unary EX_CAST tyInt (EX_FIXNUM tyInt 7)" and ?e2.0 = "EX_FIXNUM tyInt 3"
      and st = cg_init and ?st1.0 = cg_init and ?st2.0 = cg_init
      and ?v1.0 = "new_const_vreg 7 vtInt 1" and ?v2.0 = "new_const_vreg 3 vtInt 0"
      and a = 3 and b = 7]
  by (simp add: literal_only_def new_const_vreg_def vtInt_def tyInt_def operand_unsigned_def
      word_sless_alt)

subsection \<open>Constant casts\<close>

text \<open>
  C10 (fails on the code). The claim asks for the two's-complement truncation of the
  payload. For a signed 4-byte destination the sign test is \<open>value & (1 << 31)\<close> with
  the shift done in \<open>int\<close>: the operand is sign-extended to 64 bits, so the test
  sees every bit from 31 upwards. The 8-byte constant \<open>2^32\<close> has bit 31 clear and
  truncates to \<open>0\<close>, yet \<open>gen_cast\<close> returns the payload \<open>0xFFFFFFFF00000000\<close>.
\<close>

theorem gen_cast_int_sign_test:
  "gen_cast (new_const_vreg (2 ^ 32)
       \<lparr>vsize = 8, valign = 8, VRTF_FLONUM = False, VRTF_UNSIGNED = False\<rparr> n) tyInt
     = Inr (NewConstVReg 0xFFFFFFFF00000000 vtInt) \<and>
   truncate_to 4 True (2 ^ 32) = 0"
  by (simp add: gen_cast_def new_const_vreg_def tyInt_def vtInt_def to_vtype_def
      is_prim_type_def is_fixnum_def is_flonum_def cast_const_value_def truncate_to_def
      mask_eq_exp_minus_1 signed_take_bit_eq_take_bit_minus bit_iff_odd)

subsection \<open>The \<open>.comm\<close> directive\<close>

lemma value_bytes_little_endian: "value_bytes n v = little_endian n v"
proof (induction n arbitrary: v)
  case 0
  then show ?case by (simp add: value_bytes_def)
next
  case (Suc n)
  have "value_bytes (Suc n) v
      = word_of_int v # map (\<lambda>i. word_of_int (v div 2 ^ (8 * Suc i))) [0..<n]"
    unfolding value_bytes_def by (simp add: upt_conv_Cons map_Suc_upt[symmetric] del: upt_Suc)
  also have "map (\<lambda>i. word_of_int (v div 2 ^ (8 * Suc i)) :: byte) [0..<n] = value_bytes n (v div 256)"
    unfolding value_bytes_def
    by (rule map_cong) (simp_all add: zdiv_zmult2_eq power_add)
  finally show ?case using Suc.IH by simp
qed

text \<open>Where a line that does not name a section puts its records.\<close>

lemma handle_line_places:
  assumes "handle_line l st = Inr st'" and "\<not> switches_section l"
    and "is_comm l \<longrightarrow> current_section st = SEC_BSS"
  shows "st' = st\<lparr>section_irs := (section_irs st)
           (current_section st := section_irs st (current_section st) @ line_records l)\<rparr>"
proof (cases l)
  case (Instruction code)
  with assms show ?thesis by (simp add: vec_push_def)
next
  case (Directive dir p)
  with assms show ?thesis
    by (cases dir)
       (auto simp: handle_directive_def vec_push_def Let_def number_or_label_def
          value_bytes_little_endian
          split: sum.splits option.splits if_splits prod.splits)
qed

lemma handle_lines_place:
  assumes "handle_lines ls st = Inr st'" and "\<forall>l \<in> set ls. \<not> switches_section l"
    and "\<forall>l \<in> set ls. is_comm l \<longrightarrow> current_section st = SEC_BSS"
  shows "st' = st\<lparr>section_irs := (section_irs st)
           (current_section st := section_irs st (current_section st)
              @ concat (map line_records ls))\<rparr>"
  using assms
proof (induction ls arbitrary: st)
  case Nil
  then show ?case by simp
next
  case (Cons l ls)
  from Cons.prems(1) obtain st1 where l: "handle_line l st = Inr st1"
    and ls: "handle_lines ls st1 = Inr st'"
    by (auto split: sum.splits)
  from Cons.prems have "\<not> switches_section l" "is_comm l \<longrightarrow> current_section st = SEC_BSS"
    by simp_all
  from handle_line_places[OF l this]
  have st1: "st1 = st\<lparr>section_irs := (section_irs st)
           (current_section st := section_irs st (current_section st) @ line_records l)\<rparr>" .
  then have cur: "current_section st1 = current_section st" by simp
  from Cons.prems cur have "\<forall>l \<in> set ls. \<not> switches_section l"
    "\<forall>l \<in> set ls. is_comm l \<longrightarrow> current_section st1 = SEC_BSS" by simp_all
  from Cons.IH[OF ls this] st1 show ?case by (simp add: fun_upd_def cong: if_cong)
qed

lemma handle_comm:
  assumes "parse_label p = Some (label, p1)"
    and "peek (skip_whitespace p1) = CHR '',''"
    and "parse_immediate (skip_whitespace (tl (skip_whitespace p1))) = Some (count, p3)"
  shows "handle_directive DT_COMM p st =
           Inr \<lparr>current_section = SEC_BSS,
                section_irs = (section_irs st)
                  (SEC_BSS := section_irs st SEC_BSS @
                     [IR_LABEL label, IR_BSS (word_of_int count)])\<rparr>"
  using assms by (simp add: handle_directive_def vec_push_def Let_def)

text \<open>
  C9. Let the operand text \<open>p\<close> of a \<open>.comm\<close> directive parse as a label, a comma and
  a count. Whatever section was current in \<open>st\<close>, \<open>handle_directive\<close> returns the
  state \<open>st1\<close> whose current section is bss and whose bss list has the label and a bss
  record of \<open>count\<close> bytes appended, every other list as before. Let the lines \<open>ls\<close>
  that follow contain no \<open>.text\<close> and no \<open>.data\<close> directive and be processed without
  an error. Then the state \<open>st2\<close> after them is \<open>st1\<close> with the records of all lines
  of \<open>ls\<close>, in order, appended to the bss list: bss is still current and no other list
  has changed. Let then come a \<open>.text\<close> or a \<open>.data\<close> directive and lines \<open>ls'\<close> with
  no \<open>.text\<close>, \<open>.data\<close> or \<open>.comm\<close>. The state \<open>st3\<close> after them is \<open>st2\<close> with the
  code section (for \<open>.text\<close>) or the data section (for \<open>.data\<close>) current and the
  records of \<open>ls'\<close> appended to the list of that section; the bss list is that of
  \<open>st2\<close>.
\<close>

theorem comm_leaves_current_section_bss:
  assumes lab: "parse_label p = Some (label, p1)"
    and comma: "peek (skip_whitespace p1) = CHR '',''"
    and cnt: "parse_immediate (skip_whitespace (tl (skip_whitespace p1))) = Some (count, p3)"
    and st1: "st1 = \<lparr>current_section = SEC_BSS,
                section_irs = (section_irs st)
                  (SEC_BSS := section_irs st SEC_BSS @
                     [IR_LABEL label, IR_BSS (word_of_int count)])\<rparr>"
    and later: "\<forall>l \<in> set ls. \<not> switches_section l"
    and run: "handle_lines ls st1 = Inr st2"
    and sw: "dir = DT_TEXT \<or> dir = DT_DATA"
    and later': "\<forall>l \<in> set ls'. \<not> switches_section l \<and> \<not> is_comm l"
    and run': "handle_lines (Directive dir q # ls') st2 = Inr st3"
  shows "handle_directive DT_COMM p st = Inr st1 \<and>
         st2 = st1\<lparr>section_irs := (section_irs st1)
                 (SEC_BSS := section_irs st1 SEC_BSS @ concat (map line_records ls))\<rparr> \<and>
         st3 = st2\<lparr>current_section := switch_target dir,
                   section_irs := (section_irs st2)
                     (switch_target dir := section_irs st2 (switch_target dir)
                        @ concat (map line_records ls'))\<rparr>"
proof -
  have first: "handle_directive DT_COMM p st = Inr st1"
    using handle_comm[OF lab comma cnt] st1 by simp
  have cur: "current_section st1 = SEC_BSS" using st1 by simp
  from handle_lines_place[OF run later] cur
  have second: "st2 = st1\<lparr>section_irs := (section_irs st1)
                 (SEC_BSS := section_irs st1 SEC_BSS @ concat (map line_records ls))\<rparr>"
    by simp
  from sw have d: "handle_line (Directive dir q) st2 = Inr (st2\<lparr>current_section := switch_target dir\<rparr>)"
    by (auto simp: handle_directive_def)
  with run' have rest: "handle_lines ls' (st2\<lparr>current_section := switch_target dir\<rparr>) = Inr st3"
    by simp
  from later' have a: "\<forall>l \<in> set ls'. \<not> switches_section l"
    and b: "\<forall>l \<in> set ls'. is_comm l \<longrightarrow>
              current_section (st2\<lparr>current_section := switch_target dir\<rparr>) = SEC_BSS"
    by simp_all
  from handle_lines_place[OF rest a b]
  have third: "st3 = st2\<lparr>current_section := switch_target dir,
                   section_irs := (section_irs st2)
                     (switch_target dir := section_irs st2 (switch_target dir)
                        @ concat (map line_records ls'))\<rparr>"
    by simp
  from first second third show ?thesis by blast
qed

text \<open>
  The theorem at \<open>.comm buf, 16\<close> met while the data section is current, followed by
  \<open>.quad 258\<close>, a one-byte instruction and \<open>.globl buf\<close>, and then by \<open>.text\<close>, a
  one-byte instruction and \<open>.align 8\<close>: the bss list holds the label, the bss record,
  the eight bytes of 258 and the first instruction; the second instruction and the
  align record are in the code list.
\<close>

lemma comm_lines_run:
  "handle_lines comm_lines comm_st1 = Inr comm_st2"
  by (simp add: comm_lines_def comm_st1_def comm_st0_def comm_st2_def handle_directive_def
      vec_push_def parse_immediate_def peek_def strtol_def isdigit_def digit_val_def
      LONG_MAX_def value_bytes_def upt_rec fun_eq_iff)

lemma text_lines_run:
  "handle_lines [Directive DT_TEXT [], Instruction [0x90], Directive DT_ALIGN ''8''] comm_st2
     = Inr comm_st3"
  by (simp add: comm_st2_def comm_st3_def handle_directive_def
      vec_push_def parse_immediate_def peek_def strtol_def isdigit_def digit_val_def
      LONG_MAX_def fun_eq_iff)

theorem comm_leaves_current_section_bss_witness:
  "handle_directive DT_COMM ''buf, 16'' comm_st0 = Inr comm_st1 \<and>
   current_section comm_st2 = SEC_BSS \<and>
   section_irs comm_st2 SEC_BSS =
     [IR_LABEL (Ident ''buf''), IR_BSS 16] @ concat (map line_records comm_lines) \<and>
   section_irs comm_st2 SEC_BSS =
     [IR_LABEL (Ident ''buf''), IR_BSS 16, IR_DATA [2, 1, 0, 0, 0, 0, 0, 0], IR_CODE [0xC3]] \<and>
   section_irs comm_st3 SEC_BSS = section_irs comm_st2 SEC_BSS \<and>
   section_irs comm_st3 SEC_CODE = [IR_CODE [0x90], IR_ALIGN 8]"
proof -
  have lab: "parse_label ''buf, 16'' = Some (Ident ''buf'', '', 16'')"
    by (simp add: parse_label_def is_label_first_chr_def is_label_chr_def isalpha_def
        isdigit_def)
  have comma: "peek (skip_whitespace '', 16'') = CHR '',''"
    by (simp add: skip_whitespace_def isspace_def peek_def)
  have cnt: "parse_immediate (skip_whitespace (tl (skip_whitespace '', 16''))) = Some (16, [])"
    by (simp add: skip_whitespace_def isspace_def parse_immediate_def peek_def strtol_def
        isdigit_def digit_val_def LONG_MAX_def)
  have later: "\<forall>l \<in> set comm_lines. \<not> switches_section l"
    by (simp add: comm_lines_def)
  have later': "\<forall>l \<in> set [Instruction [0x90], Directive DT_ALIGN ''8''].
      \<not> switches_section l \<and> \<not> is_comm l"
    by simp
  have st1: "comm_st1 = \<lparr>current_section = SEC_BSS,
                section_irs = (section_irs comm_st0)
                  (SEC_BSS := section_irs comm_st0 SEC_BSS @
                     [IR_LABEL (Ident ''buf''), IR_BSS (word_of_int 16)])\<rparr>"
    by (simp add: comm_st1_def)
  have sw: "DT_TEXT = DT_TEXT \<or> DT_TEXT = DT_DATA" by simp
  note T = comm_leaves_current_section_bss[OF lab comma cnt st1 later comm_lines_run sw later'
      text_lines_run]
  from T have a: "handle_directive DT_COMM ''buf, 16'' comm_st0 = Inr comm_st1"
    and b: "comm_st2 = comm_st1\<lparr>section_irs := (section_irs comm_st1)
                 (SEC_BSS := section_irs comm_st1 SEC_BSS @ concat (map line_records comm_lines))\<rparr>"
    by blast+
  have c: "section_irs comm_st2 SEC_BSS =
     [IR_LABEL (Ident ''buf''), IR_BSS 16] @ concat (map line_records comm_lines)"
    by (subst b) (simp add: comm_st1_def comm_st0_def)
  from a c show ?thesis by (simp add: comm_st2_def comm_st3_def)
qed

subsection \<open>Section order of the WebAssembly module\<close>

lemma bindE_Inr: "bindE m f = Inr y \<Longrightarrow> \<exists>x. m = Inr x \<and> f x = Inr y"
  by (cases m) (simp_all add: bindE_def)

lemma bindE_Inr_iff: "(bindE m f = Inr y) = (\<exists>x. m = Inr x \<and> f x = Inr y)"
  by (cases m) (simp_all add: bindE_def)

lemma emit_uleb128_Inr:
  "emit_uleb128 d pos v = Inr d' \<Longrightarrow> \<exists>bs. uleb v bs \<and> d' = take pos d @ bs @ drop pos d"
  by (auto simp: emit_uleb128_def uleb_def data_insert_def split: sum.splits)

lemma bodies_loop_eq: "bodies_loop tbl ofp = ofp @ function_bodies tbl"
  by (induction tbl arbitrary: ofp)
     (auto simp: function_bodies_def written_functions_def fwrite_def split: option.splits)

lemma code_size_loop_eq:
  "code_size_loop tbl acc = acc + of_nat (length (function_bodies tbl))"
  by (induction tbl arbitrary: acc)
     (auto simp: function_bodies_def written_functions_def split: option.splits)

lemma functions_loop_eq:
  assumes "functions_loop tbl c sec = Inr (c', sec')"
  shows "c' = c + of_nat (length (written_functions tbl)) \<and>
         (\<exists>bss. list_all2 (\<lambda>info bs. uleb (scast (type_index info)) bs)
                  (written_functions tbl) bss \<and> sec' = sec @ concat bss)"
  using assms
proof (induction tbl arbitrary: c sec)
  case Nil
  then show ?case by (simp add: written_functions_def)
next
  case (Cons info rest)
  show ?case
  proof (cases "func info = None \<or> flag info = 0")
    case True
    with Cons.prems have "functions_loop rest c sec = Inr (c', sec')" by auto
    from Cons.IH[OF this] True show ?thesis by (auto simp: written_functions_def)
  next
    case False
    with Cons.prems obtain sec1 where
      a: "emit_uleb128 sec (length sec) (scast (type_index info)) = Inr sec1"
      and b: "functions_loop rest (c + 1) sec1 = Inr (c', sec')"
      by (auto simp: bindE_Inr_iff)
    from emit_uleb128_Inr[OF a] obtain bs where
      bs: "uleb (scast (type_index info)) bs" "sec1 = sec @ bs" by auto
    from Cons.IH[OF b] obtain bss where
      c: "c' = c + 1 + of_nat (length (written_functions rest))"
      and l: "list_all2 (\<lambda>info bs. uleb (scast (type_index info)) bs) (written_functions rest) bss"
      and s: "sec' = sec1 @ concat bss" by blast
    have w: "written_functions (info # rest) = info # written_functions rest"
      using False by (simp add: written_functions_def)
    have "list_all2 (\<lambda>info bs. uleb (scast (type_index info)) bs)
            (written_functions (info # rest)) (bs # bss)"
      unfolding w using bs(1) l by simp
    moreover have "sec' = sec @ concat (bs # bss)" using s bs(2) by simp
    moreover have "c' = c + of_nat (length (written_functions (info # rest)))"
      unfolding w using c by simp
    ultimately show ?thesis by blast
  qed
qed

lemma counted_prefix:
  assumes "bindE (emit_uleb128 payload 0 n) (\<lambda>d1. emit_uleb128 d1 0 (of_nat (length d1))) = Inr d2"
  shows "counted_section sid n payload (sid # d2)"
proof -
  from bindE_Inr[OF assms] obtain d1 where a: "emit_uleb128 payload 0 n = Inr d1"
    and b: "emit_uleb128 d1 0 (of_nat (length d1)) = Inr d2" by blast
  from emit_uleb128_Inr[OF a] obtain cnt where c: "uleb n cnt" "d1 = cnt @ payload" by auto
  from emit_uleb128_Inr[OF b] obtain sz where s: "uleb (of_nat (length d1)) sz" "d2 = sz @ d1" by auto
  from c s show ?thesis by (auto simp: counted_section_def)
qed

text \<open>
  C7. Whenever \<open>emit_wasm\<close> completes, the file holds, after the preamble and in
  this order: the type section (id 1); the import section (id 2) exactly when
  \<open>imports_count\<close> is positive; the function section (id 3), whose count is the
  number of functions of the module and whose payload is their type indices; the global
  section (id 6) exactly when \<open>globals_count\<close> is positive; the export section
  (id 7); and the code section (id 10), which is the id, the LEB128 of the size of all
  that follows it (the count and the bodies), the LEB128 of the number of functions,
  and then the bodies of the functions in table order.
\<close>

theorem emit_wasm_section_order:
  assumes ok: "emit_wasm inp = Inr out"
  shows "\<exists>ty im fn gl ex code fnp.
      out = [0x00, 0x61, 0x73, 0x6d, 0x01, 0x00, 0x00, 0x00] @ ty @ im @ fn @ gl @ ex @ code
    \<and> counted_section SEC_TYPE (scast (types_len inp)) (types_section inp) ty
    \<and> (if 0 < imports_count inp
        then counted_section SEC_IMPORT (ucast (imports_count inp)) (imports_section inp) im
        else im = [])
    \<and> type_indices (func_info_table inp) fnp
    \<and> counted_section SEC_FUNC (ucast (number_of_functions (func_info_table inp))) fnp fn
    \<and> (if 0 < globals_count inp
        then counted_section SEC_GLOBAL (ucast (globals_count inp)) (globals_section inp) gl
        else gl = [])
    \<and> (\<exists>sz. uleb (of_nat (length (exports_section inp))) sz \<and>
              ex = SEC_EXPORT # sz @ exports_section inp)
    \<and> counted_section SEC_CODE_wasm (ucast (number_of_functions (func_info_table inp)))
          (function_bodies (func_info_table inp)) code"
proof -
  from ok obtain types1 types2 imports2 function_count functions0 functions1 functions2
      globals2 exports2 codesec1 codesec2
    where t1: "emit_uleb128 (types_section inp) 0 (scast (types_len inp)) = Inr types1"
      and t2: "emit_uleb128 types1 0 (of_nat (length types1)) = Inr types2"
      and i2: "(if 0 < imports_count inp
             then bindE (emit_uleb128 (imports_section inp) 0 (ucast (imports_count inp)))
                    (\<lambda>i1. emit_uleb128 i1 0 (of_nat (length i1)))
             else Inr (imports_section inp)) = Inr imports2"
      and f0: "functions_loop (func_info_table inp) 0 [] = Inr (function_count, functions0)"
      and f1: "emit_uleb128 functions0 0 (ucast function_count) = Inr functions1"
      and f2: "emit_uleb128 functions1 0 (of_nat (length functions1)) = Inr functions2"
      and g2: "(if 0 < globals_count inp
             then bindE (emit_uleb128 (globals_section inp) 0 (ucast (globals_count inp)))
                    (\<lambda>g1. emit_uleb128 g1 0 (of_nat (length g1)))
             else Inr (globals_section inp)) = Inr globals2"
      and e2: "emit_uleb128 (exports_section inp) 0 (of_nat (length (exports_section inp)))
                 = Inr exports2"
      and c1: "emit_uleb128 [SEC_CODE_wasm] 1 (ucast function_count) = Inr codesec1"
      and c2: "emit_uleb128 codesec1 1
                 (of_nat (length codesec1 - 1) + code_size_loop (func_info_table inp) 0)
                 = Inr codesec2"
      and out: "out = emit_wasm_header [] @ (SEC_TYPE # types2)
          @ (if 0 < imports_count inp then SEC_IMPORT # imports2 else [])
          @ (SEC_FUNC # functions2)
          @ (if 0 < globals_count inp then SEC_GLOBAL # globals2 else [])
          @ (SEC_EXPORT # exports2) @ codesec2 @ function_bodies (func_info_table inp)"
    unfolding emit_wasm_def Let_def
    by (auto simp: bindE_Inr_iff bodies_loop_eq fwrite_def data_append_def data_push_def
        data_concat_def)
  from functions_loop_eq[OF f0]
  have fc: "function_count = number_of_functions (func_info_table inp)"
    and fp: "type_indices (func_info_table inp) functions0"
    by (auto simp: number_of_functions_def type_indices_def)
  have ty: "counted_section SEC_TYPE (scast (types_len inp)) (types_section inp) (SEC_TYPE # types2)"
    by (rule counted_prefix) (simp add: t1 t2 bindE_def)
  have im: "0 < imports_count inp \<Longrightarrow>
      counted_section SEC_IMPORT (ucast (imports_count inp)) (imports_section inp) (SEC_IMPORT # imports2)"
    using i2 by (auto intro: counted_prefix)
  have fn: "counted_section SEC_FUNC (ucast (number_of_functions (func_info_table inp)))
              functions0 (SEC_FUNC # functions2)"
    unfolding fc[symmetric] by (rule counted_prefix) (simp add: f1 f2 bindE_def)
  have gl: "0 < globals_count inp \<Longrightarrow>
      counted_section SEC_GLOBAL (ucast (globals_count inp)) (globals_section inp) (SEC_GLOBAL # globals2)"
    using g2 by (auto intro: counted_prefix)
  from emit_uleb128_Inr[OF e2] obtain esz
    where ex: "uleb (of_nat (length (exports_section inp))) esz" "exports2 = esz @ exports_section inp"
    by auto
  from emit_uleb128_Inr[OF c1] obtain cnt
    where cnt: "uleb (ucast function_count) cnt" "codesec1 = SEC_CODE_wasm # cnt"
    by auto
  from emit_uleb128_Inr[OF c2] cnt obtain sz
    where sz: "uleb (of_nat (length cnt) + code_size_loop (func_info_table inp) 0) sz"
       "codesec2 = SEC_CODE_wasm # sz @ cnt"
    by auto
  have "of_nat (length cnt) + code_size_loop (func_info_table inp) 0
      = (of_nat (length (cnt @ function_bodies (func_info_table inp))) :: uint64)"
    by (simp add: code_size_loop_eq)
  with sz(1) have sz': "uleb (of_nat (length (cnt @ function_bodies (func_info_table inp)))) sz"
    by simp
  let ?im = "if 0 < imports_count inp then SEC_IMPORT # imports2 else []"
  let ?gl = "if 0 < globals_count inp then SEC_GLOBAL # globals2 else []"
  have layout: "out = [0x00, 0x61, 0x73, 0x6d, 0x01, 0x00, 0x00, 0x00] @ (SEC_TYPE # types2) @ ?im
      @ (SEC_FUNC # functions2) @ ?gl @ (SEC_EXPORT # exports2)
      @ (SEC_CODE_wasm # sz @ cnt @ function_bodies (func_info_table inp))"
    using out sz(2) by (simp add: fwrite_def emit_wasm_header_def)
  have imc: "if 0 < imports_count inp
        then counted_section SEC_IMPORT (ucast (imports_count inp)) (imports_section inp) ?im
        else ?im = []"
    using im by simp
  have glc: "if 0 < globals_count inp
        then counted_section SEC_GLOBAL (ucast (globals_count inp)) (globals_section inp) ?gl
        else ?gl = []"
    using gl by simp
  have exc: "\<exists>sz. uleb (of_nat (length (exports_section inp))) sz \<and>
              SEC_EXPORT # exports2 = SEC_EXPORT # sz @ exports_section inp"
    using ex by blast
  have cdc: "counted_section SEC_CODE_wasm (ucast (number_of_functions (func_info_table inp)))
          (function_bodies (func_info_table inp))
          (SEC_CODE_wasm # sz @ cnt @ function_bodies (func_info_table inp))"
    unfolding counted_section_def using cnt(1) sz' fc by blast
  from layout ty imc fp fn glc exc cdc show ?thesis by blast
qed

text \<open>
  The theorem at a module with one global, no import and two functions in the table, of
  which the second is not referenced (its flag is 0): the import section is absent, the
  function and the code section count one function, and the code section holds the body
  of the first function only, after the size 4 of the count and that body.
\<close>

lemma emit_wasm_sample:
  "emit_wasm wasm_sample = Inr wasm_sample_bytes"
  by (simp add: emit_wasm_def wasm_sample_def wasm_sample_bytes_def bindE_def emit_uleb128_def
      uleb128_loop.simps LEB_BUF_SIZE_def data_insert_def data_push_def data_append_def
      data_concat_def fwrite_def emit_wasm_header_def SEC_TYPE_def SEC_IMPORT_def SEC_FUNC_def
      SEC_GLOBAL_def SEC_EXPORT_def SEC_CODE_wasm_def)

theorem emit_wasm_section_order_witness:
  "\<exists>ty fn gl ex code fnp.
      wasm_sample_bytes
        = [0x00, 0x61, 0x73, 0x6d, 0x01, 0x00, 0x00, 0x00] @ ty @ fn @ gl @ ex @ code
    \<and> counted_section SEC_TYPE 1 [0x60, 0, 0] ty
    \<and> type_indices (func_info_table wasm_sample) fnp
    \<and> counted_section SEC_FUNC 1 fnp fn
    \<and> counted_section SEC_GLOBAL 1 [0x7f, 1, 0x41, 0, 0x0b] gl
    \<and> (\<exists>sz. uleb 5 sz \<and> ex = SEC_EXPORT # sz @ [1, 1, 0x66, 0, 0])
    \<and> counted_section SEC_CODE_wasm 1 [2, 0, 0x0b] code"
  using emit_wasm_section_order [OF emit_wasm_sample]
  by (simp add: wasm_sample_def function_bodies_def written_functions_def
      number_of_functions_def)

subsection \<open>Exit status and the \<open>-e\<close> option\<close>

lemma parse_no_exports:
  "parse_options args opts = Inr (opts', files) \<Longrightarrow>
   \<forall>a \<in> set (takeWhile (\<lambda>arg. peek arg = CHR ''-'') args). \<not> supplies_exports a \<Longrightarrow>
   exports opts' = exports opts"
proof (induction args opts rule: parse_options.induct)
  case (1 opts)
  then show ?case by simp
next
  case (2 arg rest opts)
  show ?case
  proof (cases "peek arg = CHR ''-''")
    case False
    with 2 show ?thesis by simp
  next
    case dash: True
    with "2.prems"(2) have ns: "\<not> supplies_exports arg"
      and rest: "\<forall>a \<in> set (takeWhile (\<lambda>arg. peek arg = CHR ''-'') rest). \<not> supplies_exports a"
      by simp_all
    have ne: "\<not> (starts_with arg ''-e'' \<and> peek (drop 2 arg) \<noteq> CHR 0x00)"
      using ns by (simp add: supplies_exports_def)
    show ?thesis
    proof (cases "starts_with arg ''-o''")
      case True
      with dash "2.prems"(1) have "parse_options rest (opts\<lparr>ofn := drop 2 arg\<rparr>) = Inr (opts', files)"
        by simp
      from "2.IH"(1)[OF _ True this rest] dash show ?thesis by simp
    next
      case no: False
      show ?thesis
      proof (cases "arg = ''--verbose''")
        case True
        with dash no ne "2.prems"(1)
        have "parse_options rest (opts\<lparr>verbose := True\<rparr>) = Inr (opts', files)"
          by (simp add: starts_with_def peek_def)
        from "2.IH"(3)[OF _ no ne True this rest] dash show ?thesis by simp
      next
        case False
        with dash no ne "2.prems"(1) show ?thesis by auto
      qed
    qed
  qed
qed

lemma parse_unknown:
  "parse_options args opts = Inl msg \<Longrightarrow>
   \<exists>a \<in> set (takeWhile (\<lambda>arg. peek arg = CHR ''-'') args).
      \<not> recognised_option a \<and> msg = ''Unknown option: '' @ a"
proof (induction args opts rule: parse_options.induct)
  case (1 opts)
  then show ?case by simp
next
  case (2 arg rest opts)
  show ?case
  proof (cases "peek arg = CHR ''-''")
    case False
    with 2 show ?thesis by simp
  next
    case dash: True
    show ?thesis
    proof (cases "starts_with arg ''-o''")
      case True
      with dash "2.prems"(1) have "parse_options rest (opts\<lparr>ofn := drop 2 arg\<rparr>) = Inl msg"
        by simp
      from "2.IH"(1)[OF _ True this] dash show ?thesis by auto
    next
      case no: False
      show ?thesis
      proof (cases "starts_with arg ''-e'' \<and> peek (drop 2 arg) \<noteq> CHR 0x00")
        case True
        with dash no "2.prems"(1)
        have "parse_options rest (opts\<lparr>exports := Some (split_commas (drop 2 arg))\<rparr>) = Inl msg"
          by simp
        from "2.IH"(2)[OF _ no True this] dash show ?thesis by auto
      next
        case ne: False
        then have ns: "\<not> supplies_exports arg"
          by (simp add: supplies_exports_def)
        show ?thesis
        proof (cases "arg = ''--verbose''")
          case True
          with dash no ne "2.prems"(1)
          have "parse_options rest (opts\<lparr>verbose := True\<rparr>) = Inl msg"
            by (simp add: starts_with_def peek_def)
          from "2.IH"(3)[OF _ no ne True this] dash show ?thesis by auto
        next
          case False
          with dash no ne "2.prems"(1) have "msg = ''Unknown option: '' @ arg" by auto
          with dash no ns False show ?thesis by (auto simp: recognised_option_def)
        qed
      qed
    qed
  qed
qed

lemma parse_recognised:
  "parse_options args opts = Inr (opts', files) \<Longrightarrow>
   \<forall>a \<in> set (takeWhile (\<lambda>arg. peek arg = CHR ''-'') args). recognised_option a"
proof (induction args opts rule: parse_options.induct)
  case (1 opts)
  then show ?case by simp
next
  case (2 arg rest opts)
  show ?case
  proof (cases "peek arg = CHR ''-''")
    case False
    then show ?thesis by simp
  next
    case dash: True
    show ?thesis
    proof (cases "starts_with arg ''-o''")
      case True
      with dash "2.prems"(1) have "parse_options rest (opts\<lparr>ofn := drop 2 arg\<rparr>) = Inr (opts', files)"
        by simp
      from "2.IH"(1)[OF _ True this] dash True show ?thesis
        by (simp add: recognised_option_def)
    next
      case no: False
      show ?thesis
      proof (cases "starts_with arg ''-e'' \<and> peek (drop 2 arg) \<noteq> CHR 0x00")
        case True
        with dash no "2.prems"(1)
        have "parse_options rest (opts\<lparr>exports := Some (split_commas (drop 2 arg))\<rparr>)
                = Inr (opts', files)"
          by simp
        from "2.IH"(2)[OF _ no True this] dash True show ?thesis
          by (simp add: recognised_option_def supplies_exports_def)
      next
        case ne: False
        show ?thesis
        proof (cases "arg = ''--verbose''")
          case True
          with dash no ne "2.prems"(1)
          have "parse_options rest (opts\<lparr>verbose := True\<rparr>) = Inr (opts', files)"
            by (simp add: starts_with_def peek_def)
          from "2.IH"(3)[OF _ no ne True this] dash True show ?thesis
            by (simp add: recognised_option_def)
        next
          case False
          with dash no ne "2.prems"(1) show ?thesis by auto
        qed
      qed
    qed
  qed
qed

lemma then_stage_reported:
  assumes "\<And>x. r = Completed x \<Longrightarrow> reported (continue x)"
  shows "reported (then_stage r out continue)"
  using assms by (cases r) (simp_all add: then_stage_def stopped_def error_exit_def reported_def)

lemma then_stage_Exit0:
  assumes "ended (then_stage r out continue) = Exit 0"
  shows "\<exists>x. r = Completed x \<and> then_stage r out continue = continue x"
  using assms by (cases r) (simp_all add: then_stage_def stopped_def error_exit_def)

lemma main_diagnostic:
  "diagnostics (main env argv) \<noteq> [] \<Longrightarrow>
   ended (main env argv) = Exit 1 \<or> ended (main env argv) = Abort"
proof -
  let ?o = "\<lparr>ofn = ''a.wasm'', exports = None, verbose = False\<rparr>"
  have "reported (main env argv)"
  proof (cases "parse_options (drop 1 argv) ?o")
    case (Inl msg)
    then show ?thesis by (simp add: main_def reported_def)
  next
    case (Inr r)
    obtain opts files where r: "r = (opts, files)" by (cases r)
    show ?thesis
    proof (cases "exports opts")
      case None
      with Inr r show ?thesis by (simp add: main_def reported_def error_exit_def)
    next
      case (Some exps)
      have last: "reported (case emit_wasm inp of
                  Inl _ \<Rightarrow> \<lparr>ended = Undefined, diagnostics = [], written = Incomplete\<rparr>
                | Inr bytes \<Rightarrow> \<lparr>ended = Exit 0, diagnostics = [],
                                written = Module bytes\<rparr>)" for inp
        by (cases "emit_wasm inp") (simp_all add: reported_def)
      have err: "reported (error_exit msg out)" for msg out
        by (simp add: reported_def error_exit_def)
      have k4: "reported (then_stage (build_sections env exps) Incomplete (\<lambda>inp.
                case emit_wasm inp of
                  Inl _ \<Rightarrow> \<lparr>ended = Undefined, diagnostics = [], written = Incomplete\<rparr>
                | Inr bytes \<Rightarrow> \<lparr>ended = Exit 0, diagnostics = [],
                                written = Module bytes\<rparr>))"
        by (rule then_stage_reported) (rule last)
      have "reported (then_stage (if files \<noteq> [] then compile_files env files
                          else parse_file env ''*stdin*'') NotOpened (\<lambda>_.
              then_stage (traverse_ast env exps) NotOpened (\<lambda>_.
              then_stage (gen env) NotOpened (\<lambda>_.
              if \<not> can_write env (ofn opts)
              then error_exit ''Cannot open output file'' NotOpened
              else then_stage (build_sections env exps) Incomplete (\<lambda>inp.
                case emit_wasm inp of
                  Inl _ \<Rightarrow> \<lparr>ended = Undefined, diagnostics = [], written = Incomplete\<rparr>
                | Inr bytes \<Rightarrow> \<lparr>ended = Exit 0, diagnostics = [],
                                written = Module bytes\<rparr>)))))"
      proof (intro then_stage_reported)
        show "reported (if \<not> can_write env (ofn opts)
              then error_exit ''Cannot open output file'' NotOpened
              else then_stage (build_sections env exps) Incomplete (\<lambda>inp.
                case emit_wasm inp of
                  Inl _ \<Rightarrow> \<lparr>ended = Undefined, diagnostics = [], written = Incomplete\<rparr>
                | Inr bytes \<Rightarrow> \<lparr>ended = Exit 0, diagnostics = [],
                                written = Module bytes\<rparr>))"
          using err k4 by (cases "can_write env (ofn opts)") simp_all
      qed
      with Inr r Some show ?thesis by (simp add: main_def)
    qed
  qed
  then show "diagnostics (main env argv) \<noteq> [] \<Longrightarrow>
      ended (main env argv) = Exit 1 \<or> ended (main env argv) = Abort"
    by (simp add: reported_def)
qed

lemma main_success:
  assumes ok: "ended (main env argv) = Exit 0"
  shows "diagnostics (main env argv) = [] \<and>
         (\<exists>bytes. succeeds env argv bytes \<and> written (main env argv) = Module bytes)"
proof -
  let ?o = "\<lparr>ofn = ''a.wasm'', exports = None, verbose = False\<rparr>"
  from ok obtain opts files where p: "parse_options (drop 1 argv) ?o = Inr (opts, files)"
    by (cases "parse_options (drop 1 argv) ?o") (auto simp: main_def)
  from ok p obtain exps where e: "exports opts = Some exps"
    by (cases "exports opts") (auto simp: main_def error_exit_def)
  let ?k4 = "\<lambda>inp. case emit_wasm inp of
                  Inl _ \<Rightarrow> \<lparr>ended = Undefined, diagnostics = [], written = Incomplete\<rparr>
                | Inr bytes \<Rightarrow> \<lparr>ended = Exit 0, diagnostics = [], written = Module bytes\<rparr>"
  let ?k3 = "\<lambda>_::unit. if \<not> can_write env (ofn opts)
              then error_exit ''Cannot open output file'' NotOpened
              else then_stage (build_sections env exps) Incomplete ?k4"
  let ?k2 = "\<lambda>_::unit. then_stage (gen env) NotOpened ?k3"
  let ?k1 = "\<lambda>_::unit. then_stage (traverse_ast env exps) NotOpened ?k2"
  let ?c = "if files \<noteq> [] then compile_files env files else parse_file env ''*stdin*''"
  have m: "main env argv = then_stage ?c NotOpened ?k1"
    using p e by (simp add: main_def)
  from then_stage_Exit0[of ?c NotOpened ?k1] ok m
  have c: "?c = Completed ()" and m1: "main env argv = ?k1 ()" by auto
  from then_stage_Exit0[of "traverse_ast env exps" NotOpened ?k2] ok m1
  have t: "traverse_ast env exps = Completed ()" and m2: "main env argv = ?k2 ()" by auto
  from then_stage_Exit0[of "gen env" NotOpened ?k3] ok m2
  have g: "gen env = Completed ()" and m3: "main env argv = ?k3 ()" by auto
  from ok m3 have w: "can_write env (ofn opts)"
    by (auto simp: error_exit_def split: if_splits)
  with m3 have m3': "main env argv = then_stage (build_sections env exps) Incomplete ?k4"
    by simp
  from then_stage_Exit0[of "build_sections env exps" Incomplete ?k4] ok m3'
  obtain inp where b: "build_sections env exps = Completed inp"
    and m4: "main env argv = ?k4 inp" by auto
  from ok m4 obtain bytes where em: "emit_wasm inp = Inr bytes"
    by (cases "emit_wasm inp") auto
  with m4 have fin: "main env argv = \<lparr>ended = Exit 0, diagnostics = [], written = Module bytes\<rparr>"
    by simp
  have "succeeds env argv bytes"
    unfolding succeeds_def using p e c t g w b em by blast
  with fin show ?thesis by auto
qed

text \<open>
  C8 (as amended). If no leading option supplies export names, no output file is
  opened and the process exits with status 1; its diagnostic is \<open>no exports\<close> when
  every leading option is recognised, and otherwise the \<open>Unknown option\<close> report for
  an unrecognised one. Whenever a diagnostic is reported, the process exits with status
  1 or is aborted by a failed assertion. It exits with status 0 only on success: no
  diagnostic has been reported, every stage has completed, and the output file holds
  the bytes that \<open>emit_wasm\<close> returns.
\<close>

theorem main_diagnostics_and_status:
  "(\<not> (\<exists>a \<in> set (leading_options argv). supplies_exports a) \<longrightarrow>
      ended (main env argv) = Exit 1 \<and> written (main env argv) = NotOpened \<and>
      (if \<exists>a \<in> set (leading_options argv). \<not> recognised_option a
       then \<exists>a \<in> set (leading_options argv). \<not> recognised_option a \<and>
              diagnostics (main env argv) = [''Unknown option: '' @ a]
       else diagnostics (main env argv) = [''no exports (require -e<xxx>)''])) \<and>
   (diagnostics (main env argv) \<noteq> [] \<longrightarrow>
      ended (main env argv) = Exit 1 \<or> ended (main env argv) = Abort) \<and>
   (ended (main env argv) = Exit 0 \<longrightarrow>
      diagnostics (main env argv) = [] \<and>
      (\<exists>bytes. succeeds env argv bytes \<and> written (main env argv) = Module bytes))"
proof -
  let ?o = "\<lparr>ofn = ''a.wasm'', exports = None, verbose = False\<rparr>"
  have first: "ended (main env argv) = Exit 1 \<and> written (main env argv) = NotOpened \<and>
         (if \<exists>a \<in> set (leading_options argv). \<not> recognised_option a
          then \<exists>a \<in> set (leading_options argv). \<not> recognised_option a \<and>
                 diagnostics (main env argv) = [''Unknown option: '' @ a]
          else diagnostics (main env argv) = [''no exports (require -e<xxx>)''])"
    if none: "\<not> (\<exists>a \<in> set (leading_options argv). supplies_exports a)"
  proof (cases "parse_options (drop 1 argv) ?o")
    case (Inl msg)
    from parse_unknown[OF Inl] obtain a where a: "a \<in> set (leading_options argv)"
      "\<not> recognised_option a" "msg = ''Unknown option: '' @ a"
      by (auto simp: leading_options_def)
    have d: "main env argv = \<lparr>ended = Exit 1, diagnostics = [msg], written = NotOpened\<rparr>"
      using Inl by (simp add: main_def)
    from a d show ?thesis by auto
  next
    case (Inr r)
    obtain opts files where r: "r = (opts, files)" by (cases r)
    from none have none': "\<forall>a \<in> set (takeWhile (\<lambda>arg. peek arg = CHR ''-'') (drop 1 argv)).
        \<not> supplies_exports a"
      by (simp add: leading_options_def)
    from parse_no_exports[OF Inr[unfolded r] none'] have e: "exports opts = None" by simp
    have d: "main env argv = error_exit ''no exports (require -e<xxx>)'' NotOpened"
      using Inr r e by (simp add: main_def)
    have "\<not> (\<exists>a \<in> set (leading_options argv). \<not> recognised_option a)"
      using parse_recognised[OF Inr[unfolded r]] by (simp add: leading_options_def)
    with d show ?thesis by (simp add: error_exit_def)
  qed
  from first main_diagnostic[of env argv] main_success[of env argv] show ?thesis by blast
qed

text \<open>
  The claim as stated fails at \<open>wcc -x\<close>: no option supplies export names, and the
  only diagnostic is the one about the unknown option.
\<close>

theorem no_exports_diagnostic_counterexample:
  "\<not> (\<exists>a \<in> set (leading_options [''wcc'', ''-x'']). supplies_exports a) \<and>
   diagnostics (main quiet_env [''wcc'', ''-x'']) = [''Unknown option: -x'']"
  by (simp add: leading_options_def supplies_exports_def starts_with_def peek_def main_def)

text \<open>
  The amended statement at \<open>wcc --verbose a.c\<close>, which ends with the diagnostic
  \<open>no exports\<close> and status 1, and at \<open>wcc -ef a.c\<close> in an environment whose stages
  complete, which ends with status 0 and the module of the sample in the output file.
\<close>

lemma main_sample_run:
  "main quiet_env [''wcc'', ''-ef'', ''a.c'']
     = \<lparr>ended = Exit 0, diagnostics = [], written = Module wasm_sample_bytes\<rparr>"
  by (simp add: main_def then_stage_def quiet_env_def starts_with_def peek_def
      split_commas.simps emit_wasm_sample)

theorem main_diagnostics_and_status_witness:
  "ended (main quiet_env [''wcc'', ''--verbose'', ''a.c'']) = Exit 1 \<and>
   written (main quiet_env [''wcc'', ''--verbose'', ''a.c'']) = NotOpened \<and>
   diagnostics (main quiet_env [''wcc'', ''--verbose'', ''a.c''])
     = [''no exports (require -e<xxx>)''] \<and>
   ended (main quiet_env [''wcc'', ''-ef'', ''a.c'']) = Exit 0 \<and>
   diagnostics (main quiet_env [''wcc'', ''-ef'', ''a.c'']) = [] \<and>
   succeeds quiet_env [''wcc'', ''-ef'', ''a.c''] wasm_sample_bytes"
proof -
  note A = main_diagnostics_and_status [of "[''wcc'', ''--verbose'', ''a.c'']" quiet_env]
  note B = main_diagnostics_and_status [of "[''wcc'', ''-ef'', ''a.c'']" quiet_env]
  have a: "ended (main quiet_env [''wcc'', ''--verbose'', ''a.c'']) = Exit 1 \<and>
   written (main quiet_env [''wcc'', ''--verbose'', ''a.c'']) = NotOpened \<and>
   diagnostics (main quiet_env [''wcc'', ''--verbose'', ''a.c''])
     = [''no exports (require -e<xxx>)'']"
    using A by (simp add: leading_options_def supplies_exports_def recognised_option_def
        starts_with_def peek_def)
  have e: "ended (main quiet_env [''wcc'', ''-ef'', ''a.c'']) = Exit 0"
    by (simp add: main_sample_run)
  with B have "diagnostics (main quiet_env [''wcc'', ''-ef'', ''a.c'']) = [] \<and>
      (\<exists>bytes. succeeds quiet_env [''wcc'', ''-ef'', ''a.c''] bytes \<and>
         written (main quiet_env [''wcc'', ''-ef'', ''a.c'']) = Module bytes)"
    by blast
  then have "diagnostics (main quiet_env [''wcc'', ''-ef'', ''a.c'']) = [] \<and>
      succeeds quiet_env [''wcc'', ''-ef'', ''a.c''] wasm_sample_bytes"
    by (auto simp: main_sample_run)
  with a e show ?thesis by blast
qed

subsection \<open>Simplifying call arguments\<close>

lemma simplify_funarg_precalculated:
  "precalculated x86_64 e \<Longrightarrow> simplify_funarg ge x86_64 e st = Inr (gen_expr_as_tmpvar ge e st)"
  by (cases e) auto

lemma simplify_funarg_literal:
  "literal_or_variable e \<Longrightarrow> simplify_funarg ge x86_64 e st = Inr (e, st)"
  by (cases e) auto

lemma simplify_args_length:
  "simplify_args ge x86_64 args st = Inr (args', st') \<Longrightarrow> length args' = length args"
  by (induction args arbitrary: st args') (auto split: sum.splits prod.splits)

lemma simplify_args_nth:
  assumes "simplify_args ge x86_64 args st = Inr (args', st')" and "i < length args"
  shows "\<exists>sti sti'.
           simplify_args ge x86_64 (take i args) st = Inr (take i args', sti) \<and>
           simplify_funarg ge x86_64 (args ! i) sti = Inr (args' ! i, sti')"
  using assms
proof (induction args arbitrary: st args' i)
  case Nil
  then show ?case by simp
next
  case (Cons arg args)
  from Cons.prems(1) obtain arg' st1 rest'
    where a: "simplify_funarg ge x86_64 arg st = Inr (arg', st1)"
      and r: "simplify_args ge x86_64 args st1 = Inr (rest', st')"
      and e: "args' = arg' # rest'"
    by (auto split: sum.splits prod.splits)
  show ?case
  proof (cases i)
    case 0
    with a e show ?thesis by simp
  next
    case (Suc j)
    with Cons.prems(2) have j: "j < length args" by simp
    from Cons.IH[OF r j] obtain sti sti'
      where "simplify_args ge x86_64 (take j args) st1 = Inr (take j rest', sti)"
        and "simplify_funarg ge x86_64 (args ! j) sti = Inr (rest' ! j, sti')"
      by blast
    with a e Suc show ?thesis by simp
  qed
qed

lemma simplify_args_snoc:
  "simplify_args ge x86_64 xs st = Inr (xs', s1) \<Longrightarrow>
   simplify_funarg ge x86_64 e s1 = Inr (e', s2) \<Longrightarrow>
   simplify_args ge x86_64 (xs @ [e]) st = Inr (xs' @ [e'], s2)"
  by (induction xs arbitrary: st xs') (auto split: sum.splits prod.splits)

text \<open>What \<open>gen_expr_as_tmpvar\<close> leaves behind.\<close>

lemma gen_expr_as_tmpvar_name:
  "fst (gen_expr_as_tmpvar ge arg st) = EX_VAR (tmpvar_type arg) (Label (label_no st)) (curscope st)"
  by (simp add: gen_expr_as_tmpvar_def alloc_label_def scope_add_def tmpvar_type_def
      Let_def split: prod.splits)

lemma gen_expr_as_tmpvar_result:
  assumes k: "keeps_variables ge" and h: "labels_handed_out st"
    and r: "gen_expr_as_tmpvar ge arg st = (e', st')"
    and g: "ge arg (st\<lparr>label_no := Suc (label_no st),
                 scope_vars := scope_vars st @
                   [temporary (curscope st) (Label (label_no st)) (tmpvar_type arg) None]\<rparr>)
             = (v, st3)"
  shows "e' = EX_VAR (tmpvar_type arg) (Label (label_no st)) (curscope st)"
    and "\<forall>vi \<in> set (scope_vars st). vi_name vi \<noteq> Label (label_no st)"
    and "length (scope_vars st) < length (scope_vars st3)"
    and "st' = st3\<lparr>scope_vars := (scope_vars st3)
               [length (scope_vars st) :=
                  temporary (curscope st) (Label (label_no st)) (tmpvar_type arg) v]\<rparr>"
    and "labels_handed_out st'"
proof -
  let ?name = "Label (label_no st)"
  let ?tmp = "temporary (curscope st) ?name (tmpvar_type arg)"
  let ?st2 = "st\<lparr>label_no := Suc (label_no st), scope_vars := scope_vars st @ [?tmp None]\<rparr>"
  let ?n = "length (scope_vars st)"
  from r show e': "e' = EX_VAR (tmpvar_type arg) ?name (curscope st)"
    using gen_expr_as_tmpvar_name[of ge arg st] by simp
  from r g have st': "st' = set_local_vreg ?n v st3"
    by (simp add: gen_expr_as_tmpvar_def alloc_label_def scope_add_def tmpvar_type_def
          temporary_def Let_def)
  from h show "\<forall>vi \<in> set (scope_vars st). vi_name vi \<noteq> ?name"
    by (auto simp: labels_handed_out_def)
  have snd: "snd (ge arg ?st2) = st3" using g by simp
  from k have len: "length (scope_vars ?st2) \<le> length (scope_vars (snd (ge arg ?st2)))"
    and same: "\<forall>j < length (scope_vars ?st2).
                 same_variable (scope_vars (snd (ge arg ?st2)) ! j) (scope_vars ?st2 ! j)"
    and keep: "labels_handed_out ?st2 \<longrightarrow> labels_handed_out (snd (ge arg ?st2))"
    unfolding keeps_variables_def by blast+
  from len snd show lt: "?n < length (scope_vars st3)" by simp
  from same[rule_format, of ?n] snd
  have sv: "same_variable (scope_vars st3 ! ?n) (?tmp None)"
    by (simp add: nth_append)
  then have "(scope_vars st3 ! ?n)\<lparr>local_vreg := v\<rparr> = ?tmp v"
    by (cases "scope_vars st3 ! ?n") (simp add: same_variable_def temporary_def)
  with st' show eq: "st' = st3\<lparr>scope_vars := (scope_vars st3)[?n := ?tmp v]\<rparr>"
    by (simp add: set_local_vreg_def)
  have "labels_handed_out ?st2"
    using h by (auto simp: labels_handed_out_def temporary_def less_Suc_eq)
  with keep snd have h3: "labels_handed_out st3" by simp
  show "labels_handed_out st'"
    unfolding labels_handed_out_def
  proof (intro ballI allI impI)
    fix x n
    assume x: "x \<in> set (scope_vars st')" and n: "vi_name x = Label n"
    from x eq have "x = ?tmp v \<or> x \<in> set (scope_vars st3)"
      using set_update_subset_insert[of "scope_vars st3" ?n "?tmp v"] by auto
    then have "n < label_no st3"
    proof
      assume "x = ?tmp v"
      with n sv have "vi_name (scope_vars st3 ! ?n) = Label n"
        by (simp add: same_variable_def temporary_def)
      with h3 lt show ?thesis by (auto simp: labels_handed_out_def)
    next
      assume "x \<in> set (scope_vars st3)"
      with n h3 show ?thesis by (auto simp: labels_handed_out_def)
    qed
    with eq show "n < label_no st'" by simp
  qed
qed

lemma gen_expr_as_tmpvar_keeps:
  assumes "keeps_variables ge" and "labels_handed_out st"
  shows "labels_handed_out (snd (gen_expr_as_tmpvar ge arg st))"
proof -
  obtain e' st' where r: "gen_expr_as_tmpvar ge arg st = (e', st')"
    by (cases "gen_expr_as_tmpvar ge arg st")
  obtain v st3 where
    "ge arg (st\<lparr>label_no := Suc (label_no st),
                 scope_vars := scope_vars st @
                   [temporary (curscope st) (Label (label_no st)) (tmpvar_type arg) None]\<rparr>)
       = (v, st3)"
    by (cases "ge arg (st\<lparr>label_no := Suc (label_no st),
                 scope_vars := scope_vars st @
                   [temporary (curscope st) (Label (label_no st)) (tmpvar_type arg) None]\<rparr>)")
  from gen_expr_as_tmpvar_result(5)[OF assms r this] r show ?thesis by simp
qed

lemma gen_expr_as_tmpvar_keeps_eq:
  "gen_expr_as_tmpvar ge arg st = (e', st') \<Longrightarrow> keeps_variables ge \<Longrightarrow>
   labels_handed_out st \<Longrightarrow> labels_handed_out st'"
  using gen_expr_as_tmpvar_keeps[of ge st arg] by simp

lemma gen_expr_keeps:
  "keeps_variables ge \<Longrightarrow> labels_handed_out st \<Longrightarrow> labels_handed_out (snd (ge e st))"
  unfolding keeps_variables_def by blast

lemma simplify_funarg_keeps:
  "keeps_variables ge \<Longrightarrow> labels_handed_out st \<Longrightarrow>
   simplify_funarg ge x86_64 e st = Inr (e', st') \<Longrightarrow> labels_handed_out st'"
proof (induction ge x86_64 e st arbitrary: e' st' rule: simplify_funarg.induct)
  case (1 ge x86_64 k t sub st)
  show ?case
  proof (cases "k = EX_PREINC \<or> k = EX_PREDEC \<or> k = EX_POSTINC \<or> k = EX_POSTDEC")
    case True
    with "1.prems"(3) have "st' = snd (gen_expr_as_tmpvar ge (Unary k t sub) st)" by auto
    with "1.prems"(1,2) show ?thesis by (simp add: gen_expr_as_tmpvar_keeps)
  next
    case False
    with "1.prems"(3) have m: "k \<noteq> EX_MODIFY" by (auto split: if_splits)
    with False "1.prems"(3) obtain sub' where
      "simplify_funarg ge x86_64 sub st = Inr (sub', st')"
      by (auto split: sum.splits)
    from "1.IH"[OF False m "1.prems"(1,2) this] show ?thesis .
  qed
next
  case (2 ge x86_64 k t lhs rhs st)
  show ?case
  proof (cases "k = EX_ASSIGN \<or> k = EX_LOGAND \<or> k = EX_LOGIOR")
    case True
    with "2.prems"(3) have "st' = snd (gen_expr_as_tmpvar ge (Bop k t lhs rhs) st)" by auto
    with "2.prems"(1,2) show ?thesis by (simp add: gen_expr_as_tmpvar_keeps)
  next
    case a: False
    show ?thesis
    proof (cases "k = EX_COMMA")
      case True
      with a "2.prems"(3) have
        r: "simplify_funarg ge x86_64 rhs (snd (ge lhs st)) = Inr (e', st')" by simp
      from "2.IH"(1)[OF a True "2.prems"(1) gen_expr_keeps[OF "2.prems"(1,2)] r]
      show ?thesis .
    next
      case c: False
      show ?thesis
      proof (cases "(k = EX_MUL \<or> k = EX_DIV) \<and> x86_64")
        case True
        with a c "2.prems"(3) have
          "st' = snd (gen_expr_as_tmpvar ge (Bop k t lhs rhs) st)" by auto
        with "2.prems"(1,2) show ?thesis by (simp add: gen_expr_as_tmpvar_keeps)
      next
        case m: False
        with a c "2.prems"(3) obtain lhs' st1 rhs' where
          l: "simplify_funarg ge x86_64 lhs st = Inr (lhs', st1)"
          and r: "simplify_funarg ge x86_64 rhs st1 = Inr (rhs', st')"
          by (auto split: sum.splits)
        from "2.IH"(2)[OF a c m "2.prems"(1,2) l] have h1: "labels_handed_out st1" .
        from "2.IH"(3)[OF a c m l refl "2.prems"(1) h1 r] show ?thesis .
      qed
    qed
  qed
next
  case (7 ge x86_64 t target idx st)
  from "7.prems"(3) obtain target' where
    "simplify_funarg ge x86_64 target st = Inr (target', st')"
    by (auto split: sum.splits)
  from "7.IH"[OF "7.prems"(1,2) this] show ?case .
qed (auto simp: gen_expr_keeps dest: gen_expr_as_tmpvar_keeps_eq)

lemma simplify_args_keeps:
  "keeps_variables ge \<Longrightarrow> labels_handed_out st \<Longrightarrow>
   simplify_args ge x86_64 args st = Inr (args', st') \<Longrightarrow> labels_handed_out st'"
proof (induction args arbitrary: st args')
  case Nil
  then show ?case by simp
next
  case (Cons arg args)
  from Cons.prems(3) obtain arg' st1 rest'
    where a: "simplify_funarg ge x86_64 arg st = Inr (arg', st1)"
      and r: "simplify_args ge x86_64 args st1 = Inr (rest', st')"
    by (auto split: sum.splits prod.splits)
  from simplify_funarg_keeps[OF Cons.prems(1,2) a] have "labels_handed_out st1" .
  from Cons.IH[OF Cons.prems(1) this r] show ?case .
qed

text \<open>
  C5. Let \<open>gen_expr\<close> keep the variables of the scopes (it may add variables and set
  vregs) and let every label that names a variable be one \<open>alloc_label\<close> has handed
  out. Let the argument loop of \<open>gen_funcall\<close> turn \<open>args\<close> into \<open>args'\<close>, and let
  \<open>sti\<close> and \<open>sti'\<close> be the states before and after argument \<open>i\<close>. The list keeps
  its length. If argument \<open>i\<close> is a pre/post increment or decrement, an assignment, a
  ternary, a call, a block expression, \<open>&&\<close> or \<open>||\<close> (or \<open>*\<close> or \<open>/\<close> on x86-64),
  then there is a name that no variable of \<open>sti\<close> has; a variable of that name, of the
  argument's type (a pointer for a struct) and with no vreg yet is added to the current
  scope as the last variable; \<open>gen_expr\<close> evaluates the argument in that state to a
  vreg \<open>v\<close>; in \<open>sti'\<close> the added variable holds \<open>v\<close> and nothing else differs from
  the state \<open>gen_expr\<close> left; and \<open>args' ! i\<close> is the reference \<open>EX_VAR\<close> to that
  variable. If argument \<open>i\<close> is a literal or a variable reference, it is left as it is
  and the state does not change.
\<close>

theorem simplify_args_precalculates:
  assumes keeps: "keeps_variables ge" and handed: "labels_handed_out st"
    and run: "simplify_args ge x86_64 args st = Inr (args', st')"
    and i: "i < length args"
  shows "length args' = length args \<and>
    (\<exists>sti sti'.
       simplify_args ge x86_64 (take i args) st = Inr (take i args', sti) \<and>
       simplify_args ge x86_64 (take (Suc i) args) st = Inr (take (Suc i) args', sti') \<and>
       (if precalculated x86_64 (args ! i) then
          (\<exists>name v st3.
             (\<forall>vi \<in> set (scope_vars sti). vi_name vi \<noteq> name) \<and>
             ge (args ! i)
               (sti\<lparr>label_no := Suc (label_no sti),
                    scope_vars := scope_vars sti @
                      [temporary (curscope sti) name (tmpvar_type (args ! i)) None]\<rparr>)
               = (v, st3) \<and>
             length (scope_vars sti) < length (scope_vars st3) \<and>
             sti' = st3\<lparr>scope_vars := (scope_vars st3)
                      [length (scope_vars sti) :=
                         temporary (curscope sti) name (tmpvar_type (args ! i)) v]\<rparr> \<and>
             scope_vars sti' ! length (scope_vars sti)
               = temporary (curscope sti) name (tmpvar_type (args ! i)) v \<and>
             args' ! i = EX_VAR (tmpvar_type (args ! i)) name (curscope sti))
        else if literal_or_variable (args ! i) then args' ! i = args ! i \<and> sti' = sti
        else True))"
proof -
  have len: "length args' = length args" by (rule simplify_args_length[OF run])
  from simplify_args_nth[OF run i] obtain sti sti'
    where pre: "simplify_args ge x86_64 (take i args) st = Inr (take i args', sti)"
      and at: "simplify_funarg ge x86_64 (args ! i) sti = Inr (args' ! i, sti')"
    by blast
  have suc: "simplify_args ge x86_64 (take (Suc i) args) st = Inr (take (Suc i) args', sti')"
    using simplify_args_snoc[OF pre at] i len by (simp add: take_Suc_conv_app_nth)
  have hi: "labels_handed_out sti" by (rule simplify_args_keeps[OF keeps handed pre])
  let ?name = "Label (label_no sti)"
  let ?tmp = "temporary (curscope sti) ?name (tmpvar_type (args ! i))"
  have tmp: "\<exists>name v st3.
             (\<forall>vi \<in> set (scope_vars sti). vi_name vi \<noteq> name) \<and>
             ge (args ! i)
               (sti\<lparr>label_no := Suc (label_no sti),
                    scope_vars := scope_vars sti @
                      [temporary (curscope sti) name (tmpvar_type (args ! i)) None]\<rparr>)
               = (v, st3) \<and>
             length (scope_vars sti) < length (scope_vars st3) \<and>
             sti' = st3\<lparr>scope_vars := (scope_vars st3)
                      [length (scope_vars sti) :=
                         temporary (curscope sti) name (tmpvar_type (args ! i)) v]\<rparr> \<and>
             scope_vars sti' ! length (scope_vars sti)
               = temporary (curscope sti) name (tmpvar_type (args ! i)) v \<and>
             args' ! i = EX_VAR (tmpvar_type (args ! i)) name (curscope sti)"
    if p: "precalculated x86_64 (args ! i)"
  proof -
    from simplify_funarg_precalculated[OF p, of ge sti] at
    have eq: "gen_expr_as_tmpvar ge (args ! i) sti = (args' ! i, sti')" by simp
    obtain v st3 where
      g: "ge (args ! i) (sti\<lparr>label_no := Suc (label_no sti),
                    scope_vars := scope_vars sti @ [?tmp None]\<rparr>) = (v, st3)"
      by (cases "ge (args ! i) (sti\<lparr>label_no := Suc (label_no sti),
                    scope_vars := scope_vars sti @ [?tmp None]\<rparr>)")
    note res = gen_expr_as_tmpvar_result[OF keeps hi eq g]
    from res(3,4) have "scope_vars sti' ! length (scope_vars sti) = ?tmp v" by simp
    with res(1,2,3,4) g show ?thesis by blast
  qed
  have lit: "args' ! i = args ! i \<and> sti' = sti" if l: "literal_or_variable (args ! i)"
    using simplify_funarg_literal[OF l, of ge x86_64 sti] at by simp
  from len pre suc tmp lit show ?thesis by auto
qed

text \<open>
  The theorem at the call \<open>g(3, f(), x++)\<close> on x86-64, for the second argument, with a
  \<open>gen_expr\<close> that returns a vreg numbered by the labels handed out: the argument
  becomes a reference to the temporary \<open>Label 0\<close>, the first variable of the scope, and
  that variable holds the vreg of the call.
\<close>

lemma funarg_sample_run:
  "simplify_args gen_expr_sample True funarg_sample cg_init = Inr (funarg_result, funarg_state)"
  by (simp add: funarg_sample_def funarg_result_def funarg_state_def cg_init_def
      gen_expr_sample_def gen_expr_as_tmpvar_def alloc_label_def scope_add_def
      set_local_vreg_def vreg_sample_def tyInt_def Let_def)

lemma gen_expr_sample_keeps: "keeps_variables gen_expr_sample"
  by (simp add: keeps_variables_def gen_expr_sample_def same_variable_def)

theorem simplify_args_precalculates_witness:
  "length funarg_result = length funarg_sample \<and>
   (\<exists>sti'.
       simplify_args gen_expr_sample True (take 1 funarg_sample) cg_init
         = Inr (take 1 funarg_result, cg_init) \<and>
       simplify_args gen_expr_sample True (take 2 funarg_sample) cg_init
         = Inr (take 2 funarg_result, sti') \<and>
       scope_vars cg_init = [] \<and>
       scope_vars sti' = [temporary 0 (Label 0) tyInt (Some (vreg_sample 1))] \<and>
       funarg_result ! 1 = EX_VAR tyInt (Label 0) 0)"
proof -
  have i: "1 < length funarg_sample" by (simp add: funarg_sample_def)
  have p: "precalculated True (funarg_sample ! 1)" by (simp add: funarg_sample_def)
  have h: "labels_handed_out cg_init" by (simp add: labels_handed_out_def cg_init_def)
  have pre: "simplify_args gen_expr_sample True (take 1 funarg_sample) cg_init
         = Inr (take 1 funarg_result, cg_init)"
    by (simp add: funarg_sample_def funarg_result_def)
  from simplify_args_precalculates[OF gen_expr_sample_keeps h funarg_sample_run i] p
  obtain sti sti' name v st3 where
    a: "simplify_args gen_expr_sample True (take 1 funarg_sample) cg_init
         = Inr (take 1 funarg_result, sti)"
    and b: "simplify_args gen_expr_sample True (take 2 funarg_sample) cg_init
         = Inr (take 2 funarg_result, sti')"
    and g: "gen_expr_sample (funarg_sample ! 1)
               (sti\<lparr>label_no := Suc (label_no sti),
                    scope_vars := scope_vars sti @
                      [temporary (curscope sti) name (tmpvar_type (funarg_sample ! 1)) None]\<rparr>)
               = (v, st3)"
    and e: "sti' = st3\<lparr>scope_vars := (scope_vars st3)
                      [length (scope_vars sti) :=
                         temporary (curscope sti) name (tmpvar_type (funarg_sample ! 1)) v]\<rparr>"
    and r: "funarg_result ! 1 = EX_VAR (tmpvar_type (funarg_sample ! 1)) name (curscope sti)"
    by (auto simp: numeral_2_eq_2)
  from a pre have sti: "sti = cg_init" by simp
  from r have name: "name = Label 0"
    by (simp add: funarg_result_def)
  have ty: "tmpvar_type (funarg_sample ! 1) = tyInt"
    by (simp add: funarg_sample_def tmpvar_type_def tyInt_def)
  from g e have "scope_vars sti' = [temporary 0 (Label 0) tyInt (Some (vreg_sample 1))]"
    unfolding sti name ty by (auto simp: gen_expr_sample_def cg_init_def)
  moreover have "funarg_result ! 1 = EX_VAR tyInt (Label 0) 0"
    by (simp add: funarg_result_def)
  moreover have "scope_vars cg_init = []" by (simp add: cg_init_def)
  moreover have "length funarg_result = length funarg_sample"
    by (simp add: funarg_result_def funarg_sample_def)
  ultimately show ?thesis using pre b by blast
qed

subsection \<open>Linear scan: bit sets and the active list\<close>

lemma bit_bit1: "shift_ok n \<Longrightarrow> bit (bit1 n) k = (k = nat n)"
  by (auto simp: shift_ok_def bit1_def bit_simps)

lemma bit1_test: "shift_ok n \<Longrightarrow> (w AND bit1 n = 0) = (\<not> bit w (nat n))"
proof -
  assume ok: "shift_ok n"
  show ?thesis
  proof
    assume z: "w AND bit1 n = 0"
    show "\<not> bit w (nat n)"
    proof
      assume "bit w (nat n)"
      with ok have "bit (w AND bit1 n) (nat n)"
        by (simp add: bit_and_iff bit_bit1)
      with z show False by simp
    qed
  next
    assume nb: "\<not> bit w (nat n)"
    show "w AND bit1 n = 0"
      by (rule bit_word_eqI) (use nb ok in \<open>auto simp: bit_and_iff bit_bit1\<close>)
  qed
qed

lemma bit_or_bit1: "shift_ok n \<Longrightarrow> bit (w OR bit1 n) k = (bit w k \<or> k = nat n)"
  by (auto simp: bit_or_iff bit_bit1)

lemma bit_clear_bit1: "shift_ok n \<Longrightarrow> bit (w AND NOT (bit1 n)) k = (bit w k \<and> k \<noteq> nat n)"
  by (auto simp: bit_and_iff bit_not_iff bit_bit1 dest: bit_imp_le_length)

lemma expire_loop_effect:
  "expire_loop ivs act start ub = Inr (j, ub') \<Longrightarrow>
   j \<le> length act \<and>
   (\<forall>a \<in> set (take j act). li_end (ivs ! a) \<le> start \<and> shift_ok (li_phys (ivs ! a))) \<and>
   (\<forall>k. bit ub' k = (bit ub k \<and> k \<notin> (\<lambda>a. nat (li_phys (ivs ! a))) ` set (take j act)))"
proof (induction act arbitrary: ub j ub')
  case Nil
  then show ?case by simp
next
  case (Cons a act)
  show ?case
  proof (cases "li_end (ivs ! a) > start")
    case True
    with Cons.prems show ?thesis by simp
  next
    case False
    with Cons.prems have ok: "shift_ok (li_phys (ivs ! a))"
      by (auto split: if_splits)
    from False ok Cons.prems obtain j0
      where r: "expire_loop ivs act start (ub AND NOT (bit1 (li_phys (ivs ! a)))) = Inr (j0, ub')"
        and j: "j = Suc j0"
      by (auto split: sum.splits)
    from Cons.IH[OF r] False ok j show ?thesis
      by (auto simp: bit_clear_bit1)
  qed
qed

lemma expire_old_intervals_effect:
  assumes "expire_old_intervals ivs p start = Inr p'"
  shows "\<exists>j. j \<le> length (active p) \<and> active p' = drop j (active p) \<and>
     (\<forall>a \<in> set (take j (active p)). li_end (ivs ! a) \<le> start \<and> shift_ok (li_phys (ivs ! a))) \<and>
     (\<forall>k. bit (using_bits p') k =
        (bit (using_bits p) k \<and> k \<notin> (\<lambda>a. nat (li_phys (ivs ! a))) ` set (take j (active p)))) \<and>
     prs_phys_max p' = prs_phys_max p \<and> phys_temporary p' = phys_temporary p \<and>
     used_bits p' = used_bits p"
proof -
  from assms obtain j ub act
    where l: "expire_loop ivs (active p) start (using_bits p) = Inr (j, ub)"
      and r: "remove_active (active p) 0 j = Inr act"
      and p': "p' = p\<lparr>active := act, using_bits := ub\<rparr>"
    by (auto simp: expire_old_intervals_def split: sum.splits)
  from expire_loop_effect[OF l] have jl: "j \<le> length (active p)" by simp
  from r jl have "act = drop j (active p)"
    by (auto simp: remove_active_def split: if_splits)
  with expire_loop_effect[OF l] p' show ?thesis by auto
qed

lemma insert_active_eq:
  "insert_active ivs act li =
     takeWhile (\<lambda>p. \<not> li_end (ivs ! li) < li_end (ivs ! p)) act @
     li # dropWhile (\<lambda>p. \<not> li_end (ivs ! li) < li_end (ivs ! p)) act"
  by (simp add: insert_active_def Let_def takeWhile_eq_take[symmetric]
      dropWhile_eq_drop[symmetric])

lemma set_insert_active: "set (insert_active ivs act li) = insert li (set act)"
proof -
  have "set (takeWhile P act) \<union> set (dropWhile P act) = set act" for P
    by (metis takeWhile_dropWhile_id set_append)
  then show ?thesis by (auto simp: insert_active_eq)
qed

lemma distinct_insert_active:
  assumes d: "distinct act" and n: "li \<notin> set act"
  shows "distinct (insert_active ivs act li)"
proof -
  let ?P = "\<lambda>p. \<not> li_end (ivs ! li) < li_end (ivs ! p)"
  have "distinct (takeWhile ?P act @ dropWhile ?P act)" using d by simp
  then have "distinct (takeWhile ?P act)" "distinct (dropWhile ?P act)"
    "set (takeWhile ?P act) \<inter> set (dropWhile ?P act) = {}"
    by (simp_all only: distinct_append)
  moreover have "li \<notin> set (takeWhile ?P act)" "li \<notin> set (dropWhile ?P act)"
    using n by (auto dest: set_takeWhileD set_dropWhileD)
  ultimately show ?thesis by (auto simp: insert_active_eq)
qed

lemma sorted_insert_active:
  assumes "sorted_wrt (\<lambda>a b. li_end (ivs ! a) \<le> li_end (ivs ! b)) act"
  shows "sorted_wrt (\<lambda>a b. li_end (ivs ! a) \<le> li_end (ivs ! b)) (insert_active ivs act li)"
  using assms
proof (induction act)
  case Nil
  then show ?case by (simp add: insert_active_def)
next
  case (Cons a act)
  then have IH: "sorted_wrt (\<lambda>a b. li_end (ivs ! a) \<le> li_end (ivs ! b)) (insert_active ivs act li)"
    by simp
  show ?case
  proof (cases "li_end (ivs ! li) < li_end (ivs ! a)")
    case True
    then have "insert_active ivs (a # act) li = li # a # act"
      by (simp add: insert_active_def)
    with True Cons.prems show ?thesis by auto
  next
    case False
    then have e: "insert_active ivs (a # act) li = a # insert_active ivs act li"
      by (simp add: insert_active_def Let_def)
    from False Cons.prems IH show ?thesis
      unfolding e by (auto simp: set_insert_active)
  qed
qed

subsection \<open>Linear scan: the invariant\<close>

lemma set_inv_expire:
  assumes inv: "set_inv ra c ivs D cur p"
    and ex: "expire_old_intervals ivs p s = Inr p'"
    and le: "cur \<le> s"
  shows "set_inv ra c ivs D s p'"
    and "prs_phys_max p' = prs_phys_max p" and "phys_temporary p' = phys_temporary p"
proof -
  from expire_old_intervals_effect[OF ex] obtain j
    where j: "j \<le> length (active p)" and act: "active p' = drop j (active p)"
      and gone: "\<forall>a \<in> set (take j (active p)). li_end (ivs ! a) \<le> s \<and> shift_ok (li_phys (ivs ! a))"
      and bits: "\<forall>k. bit (using_bits p') k =
        (bit (using_bits p) k \<and> k \<notin> (\<lambda>a. nat (li_phys (ivs ! a))) ` set (take j (active p)))"
      and same: "prs_phys_max p' = prs_phys_max p" "phys_temporary p' = phys_temporary p"
    by blast
  from same show "prs_phys_max p' = prs_phys_max p" "phys_temporary p' = phys_temporary p"
    by simp_all
  from inv have d: "distinct (active p)"
    and mem: "\<forall>a \<in> set (active p). a \<in> D \<and> a < length ivs \<and> holds_register ra (ivs ! a) \<and>
          is_float ra (ivs ! a) = c \<and> shift_ok (li_phys (ivs ! a)) \<and>
          bit (using_bits p) (nat (li_phys (ivs ! a)))"
    and inj: "inj_on (\<lambda>a. li_phys (ivs ! a)) (set (active p))"
    and srt: "sorted_wrt (\<lambda>a b. li_end (ivs ! a) \<le> li_end (ivs ! b)) (active p)"
    and old: "\<forall>a \<in> D. holds_register ra (ivs ! a) \<and> is_float ra (ivs ! a) = c \<and>
          a \<notin> set (active p) \<longrightarrow> li_end (ivs ! a) \<le> cur"
    by (simp_all add: set_inv_def)
  have split: "set (active p) = set (take j (active p)) \<union> set (drop j (active p))"
    by (metis append_take_drop_id set_append)
  have disj: "set (take j (active p)) \<inter> set (drop j (active p)) = {}"
    using d by (metis append_take_drop_id distinct_append)
  have d': "distinct (active p')" using d act by simp
  have sub: "set (active p') \<subseteq> set (active p)" using act by (auto dest: in_set_dropD)
  have mem': "\<forall>a \<in> set (active p'). a \<in> D \<and> a < length ivs \<and> holds_register ra (ivs ! a) \<and>
          is_float ra (ivs ! a) = c \<and> shift_ok (li_phys (ivs ! a)) \<and>
          bit (using_bits p') (nat (li_phys (ivs ! a)))"
  proof
    fix a assume a: "a \<in> set (active p')"
    with sub have a0: "a \<in> set (active p)" by auto
    have "nat (li_phys (ivs ! a)) \<notin> (\<lambda>a. nat (li_phys (ivs ! a))) ` set (take j (active p))"
    proof
      assume "nat (li_phys (ivs ! a)) \<in> (\<lambda>a. nat (li_phys (ivs ! a))) ` set (take j (active p))"
      then obtain b where b: "b \<in> set (take j (active p))"
        and e: "nat (li_phys (ivs ! a)) = nat (li_phys (ivs ! b))" by auto
      from b have b0: "b \<in> set (active p)" by (auto dest: in_set_takeD)
      from mem a0 b0 have "shift_ok (li_phys (ivs ! a))" "shift_ok (li_phys (ivs ! b))" by auto
      with e have "li_phys (ivs ! a) = li_phys (ivs ! b)" by (auto simp: shift_ok_def)
      with inj a0 b0 have "a = b" by (auto dest: inj_onD)
      with a b act disj show False by auto
    qed
    with mem a0 bits show "a \<in> D \<and> a < length ivs \<and> holds_register ra (ivs ! a) \<and>
          is_float ra (ivs ! a) = c \<and> shift_ok (li_phys (ivs ! a)) \<and>
          bit (using_bits p') (nat (li_phys (ivs ! a)))" by simp
  qed
  have inj': "inj_on (\<lambda>a. li_phys (ivs ! a)) (set (active p'))"
    using inj sub by (rule inj_on_subset)
  have srt': "sorted_wrt (\<lambda>a b. li_end (ivs ! a) \<le> li_end (ivs ! b)) (active p')"
    using srt act by (simp add: sorted_wrt_drop)
  have old': "\<forall>a \<in> D. holds_register ra (ivs ! a) \<and> is_float ra (ivs ! a) = c \<and>
          a \<notin> set (active p') \<longrightarrow> li_end (ivs ! a) \<le> s"
  proof (intro ballI impI)
    fix a assume a: "a \<in> D"
      and h: "holds_register ra (ivs ! a) \<and> is_float ra (ivs ! a) = c \<and> a \<notin> set (active p')"
    show "li_end (ivs ! a) \<le> s"
    proof (cases "a \<in> set (active p)")
      case True
      with h act split have "a \<in> set (take j (active p))" by auto
      with gone show ?thesis by simp
    next
      case False
      with old a h have "li_end (ivs ! a) \<le> cur" by simp
      with le show ?thesis by simp
    qed
  qed
  from d' mem' inj' srt' old' show "set_inv ra c ivs D s p'"
    by (simp add: set_inv_def)
qed

lemma find_free_result:
  "find_free occ j pmax = Inr r \<Longrightarrow>
     (0 \<le> r \<longrightarrow> shift_ok r \<and> occ AND bit1 r = 0 \<and> j \<le> r \<and> r < pmax) \<and>
     (r < 0 \<longrightarrow> (\<forall>k. j \<le> k \<and> k < pmax \<longrightarrow> occ AND bit1 k \<noteq> 0))"
proof (induction occ j pmax rule: find_free.induct)
  case (1 occupied j pmax)
  show ?case
  proof (cases "j < pmax")
    case False
    with "1.prems" show ?thesis by (auto simp: find_free.simps)
  next
    case lt: True
    show ?thesis
    proof (cases "shift_ok j")
      case False
      with lt "1.prems" show ?thesis by (simp add: find_free.simps)
    next
      case ok: True
      show ?thesis
      proof (cases "occupied AND bit1 j = 0")
        case True
        with lt ok "1.prems" show ?thesis by (auto simp: find_free.simps shift_ok_def)
      next
        case False
        with lt ok "1.prems" have r: "find_free occupied (j + 1) pmax = Inr r"
          by (simp add: find_free.simps)
        from "1.IH"[OF _ _ False r] lt ok
        have a: "0 \<le> r \<longrightarrow> shift_ok r \<and> occupied AND bit1 r = 0 \<and> j + 1 \<le> r \<and> r < pmax"
          and b: "r < 0 \<longrightarrow> (\<forall>k. j + 1 \<le> k \<and> k < pmax \<longrightarrow> occupied AND bit1 k \<noteq> 0)"
          by simp_all
        have "r < 0 \<longrightarrow> (\<forall>k. j \<le> k \<and> k < pmax \<longrightarrow> occupied AND bit1 k \<noteq> 0)"
        proof (intro impI allI)
          fix k assume "r < 0" and k: "j \<le> k \<and> k < pmax"
          show "occupied AND bit1 k \<noteq> 0"
          proof (cases "k = j")
            case True
            with False show ?thesis by simp
          next
            case False
            with k have "j + 1 \<le> k \<and> k < pmax" by simp
            with b \<open>r < 0\<close> show ?thesis by simp
          qed
        qed
        with a show ?thesis by auto
      qed
    qed
  qed
qed

lemma param_hint_result:
  "param_hint ra vreg prsp occ = Inr (r, si) \<Longrightarrow>
     (0 \<le> r \<longrightarrow> shift_ok r \<and> occ AND bit1 r = 0) \<and>
     (r < 0 \<longrightarrow> si = 0 \<or> si = phys_temporary prsp)"
  by (auto simp: param_hint_def Let_def split: if_splits)

lemma set_inv_cong:
  assumes len: "length ivs1 = length ivs"
    and same: "\<forall>a \<in> D. ivs1 ! a = ivs ! a \<or>
                 (is_float ra (ivs1 ! a) \<noteq> c \<and> is_float ra (ivs ! a) \<noteq> c)"
    and inv: "set_inv ra c ivs D s p"
  shows "set_inv ra c ivs1 D s p"
proof -
  from inv have sub: "\<forall>a \<in> set (active p). a \<in> D \<and> is_float ra (ivs ! a) = c"
    by (auto simp: set_inv_def)
  with same have eq: "\<forall>a \<in> set (active p). ivs1 ! a = ivs ! a" by blast
  from inv have "inj_on (\<lambda>a. li_phys (ivs ! a)) (set (active p))" by (simp add: set_inv_def)
  with eq have inj: "inj_on (\<lambda>a. li_phys (ivs1 ! a)) (set (active p))"
    by (simp add: inj_on_def)
  from inv have "sorted_wrt (\<lambda>a b. li_end (ivs ! a) \<le> li_end (ivs ! b)) (active p)"
    by (simp add: set_inv_def)
  then have srt: "sorted_wrt (\<lambda>a b. li_end (ivs1 ! a) \<le> li_end (ivs1 ! b)) (active p)"
    by (rule sorted_wrt_mono_rel[rotated]) (use eq in auto)
  from inv have old: "\<forall>a \<in> D. holds_register ra (ivs ! a) \<and> is_float ra (ivs ! a) = c \<and>
          a \<notin> set (active p) \<longrightarrow> li_end (ivs ! a) \<le> s"
    by (simp add: set_inv_def)
  have old1: "\<forall>a \<in> D. holds_register ra (ivs1 ! a) \<and> is_float ra (ivs1 ! a) = c \<and>
          a \<notin> set (active p) \<longrightarrow> li_end (ivs1 ! a) \<le> s"
  proof (intro ballI impI)
    fix a assume a: "a \<in> D"
      and h: "holds_register ra (ivs1 ! a) \<and> is_float ra (ivs1 ! a) = c \<and> a \<notin> set (active p)"
    with same have "ivs1 ! a = ivs ! a" by blast
    with old a h show "li_end (ivs1 ! a) \<le> s" by simp
  qed
  from inv eq len inj srt old1 show ?thesis
    by (simp add: set_inv_def)
qed

lemma set_inv_used_bits [simp]:
  "set_inv ra c ivs D s (p\<lparr>used_bits := u\<rparr>) = set_inv ra c ivs D s p"
  by (simp add: set_inv_def)

lemma same_ranges_update:
  "i < length ivs \<Longrightarrow> li_start x = li_start (ivs ! i) \<Longrightarrow> li_end x = li_end (ivs ! i) \<Longrightarrow>
   li_virt x = li_virt (ivs ! i) \<Longrightarrow> occupied_reg_bit x = occupied_reg_bit (ivs ! i) \<Longrightarrow>
   same_ranges ivs (ivs[i := x])"
  by (auto simp: same_ranges_def nth_list_update)

lemma same_ranges_trans:
  "same_ranges a b \<Longrightarrow> same_ranges b c \<Longrightarrow> same_ranges a c"
  by (auto simp: same_ranges_def)

lemma same_ranges_refl [simp]: "same_ranges a a"
  by (simp add: same_ranges_def)

lemma sorted_wrt_ends_cong:
  assumes "same_ranges ivs ivs1" and "\<forall>a \<in> set xs. a < length ivs"
    and "sorted_wrt (\<lambda>a b. li_end (ivs ! a) \<le> li_end (ivs ! b)) xs"
  shows "sorted_wrt (\<lambda>a b. li_end (ivs1 ! a) \<le> li_end (ivs1 ! b)) xs"
  using assms(3)
  by (rule sorted_wrt_mono_rel[rotated]) (use assms(1,2) in \<open>auto simp: same_ranges_def\<close>)

lemma assign_case:
  assumes inv: "set_inv ra c ivs D s p"
    and i: "i \<notin> D" "i < length ivs" "holds_register ra (ivs ! i)" "is_float ra (ivs ! i) = c"
    and reg: "shift_ok regno" "\<not> bit (using_bits p) (nat regno)"
    and ivs1: "ivs1 = ivs[i := (ivs ! i)\<lparr>li_phys := regno\<rparr>]"
    and p1: "p1 = p\<lparr>using_bits := using_bits p OR bit1 regno,
                     active := insert_active ivs1 (active p) i\<rparr>"
  shows "set_inv ra c ivs1 (insert i D) s p1"
proof -
  from inv have d: "distinct (active p)"
    and mem: "\<forall>a \<in> set (active p). a \<in> D \<and> a < length ivs \<and> holds_register ra (ivs ! a) \<and>
          is_float ra (ivs ! a) = c \<and> shift_ok (li_phys (ivs ! a)) \<and>
          bit (using_bits p) (nat (li_phys (ivs ! a)))"
    and inj: "inj_on (\<lambda>a. li_phys (ivs ! a)) (set (active p))"
    and srt: "sorted_wrt (\<lambda>a b. li_end (ivs ! a) \<le> li_end (ivs ! b)) (active p)"
    and old: "\<forall>a \<in> D. holds_register ra (ivs ! a) \<and> is_float ra (ivs ! a) = c \<and>
          a \<notin> set (active p) \<longrightarrow> li_end (ivs ! a) \<le> s"
    by (simp_all add: set_inv_def)
  have ni: "i \<notin> set (active p)" using mem i(1) by auto
  have other: "a \<noteq> i \<Longrightarrow> ivs1 ! a = ivs ! a" for a by (simp add: ivs1)
  have atD: "ivs1 ! a = ivs ! a" if "a \<in> D" for a
  proof -
    from that i(1) have "a \<noteq> i" by auto
    then show ?thesis by (rule other)
  qed
  have ati: "ivs1 ! i = (ivs ! i)\<lparr>li_phys := regno\<rparr>" using i(2) by (simp add: ivs1)
  have sr: "same_ranges ivs ivs1" unfolding ivs1 by (rule same_ranges_update) (use i in auto)
  have set1: "set (active p1) = insert i (set (active p))"
    by (simp add: p1 set_insert_active)
  have d1: "distinct (active p1)"
    unfolding p1 using d ni by (simp add: distinct_insert_active)
  have mem1: "\<forall>a \<in> set (active p1). a \<in> insert i D \<and> a < length ivs1 \<and>
          holds_register ra (ivs1 ! a) \<and> is_float ra (ivs1 ! a) = c \<and>
          shift_ok (li_phys (ivs1 ! a)) \<and> bit (using_bits p1) (nat (li_phys (ivs1 ! a)))"
  proof
    fix a assume "a \<in> set (active p1)"
    with set1 consider "a = i" | "a \<in> set (active p)" "a \<noteq> i" using ni by auto
    then show "a \<in> insert i D \<and> a < length ivs1 \<and>
          holds_register ra (ivs1 ! a) \<and> is_float ra (ivs1 ! a) = c \<and>
          shift_ok (li_phys (ivs1 ! a)) \<and> bit (using_bits p1) (nat (li_phys (ivs1 ! a)))"
    proof cases
      case 1
      with ati i reg show ?thesis
        by (simp add: ivs1 p1 holds_register_def has_vreg_def is_float_def bit_or_bit1)
    next
      case 2
      with mem other[of a] reg show ?thesis
        by (simp add: ivs1 p1 bit_or_bit1)
    qed
  qed
  have inj1: "inj_on (\<lambda>a. li_phys (ivs1 ! a)) (set (active p1))"
    unfolding set1
  proof (rule inj_onI)
    fix a b assume a: "a \<in> insert i (set (active p))" and b: "b \<in> insert i (set (active p))"
      and e: "li_phys (ivs1 ! a) = li_phys (ivs1 ! b)"
    have diff: "li_phys (ivs ! x) \<noteq> regno" if "x \<in> set (active p)" for x
      using mem that reg by auto
    show "a = b"
    proof (cases "a = i"; cases "b = i")
      assume "a = i" "b = i" then show ?thesis by simp
    next
      assume "a = i" "b \<noteq> i"
      with b e ati other[of b] diff[of b] show ?thesis by simp
    next
      assume "a \<noteq> i" "b = i"
      with a e ati other[of a] diff[of a] show ?thesis by simp
    next
      assume "a \<noteq> i" "b \<noteq> i"
      with a b e other inj show ?thesis by (auto dest: inj_onD)
    qed
  qed
  have srt0: "sorted_wrt (\<lambda>a b. li_end (ivs1 ! a) \<le> li_end (ivs1 ! b)) (active p)"
    using sr _ srt by (rule sorted_wrt_ends_cong) (use mem in auto)
  have srt1: "sorted_wrt (\<lambda>a b. li_end (ivs1 ! a) \<le> li_end (ivs1 ! b)) (active p1)"
    unfolding p1 using srt0 by (simp add: sorted_insert_active)
  have old1: "\<forall>a \<in> insert i D. holds_register ra (ivs1 ! a) \<and> is_float ra (ivs1 ! a) = c \<and>
          a \<notin> set (active p1) \<longrightarrow> li_end (ivs1 ! a) \<le> s"
    using old set1 atD by auto
  from d1 mem1 inj1 srt1 old1 show ?thesis by (simp add: set_inv_def)
qed

lemma split_self_case:
  assumes inv: "set_inv ra c ivs D s p"
    and i: "i \<notin> D" "i < length ivs"
    and ivs1: "ivs1 = ivs[i := (ivs ! i)\<lparr>li_phys := pm, li_state := LI_SPILL\<rparr>]"
  shows "set_inv ra c ivs1 (insert i D) s p"
proof -
  have len: "length ivs1 = length ivs" by (simp add: ivs1)
  have same: "\<forall>a \<in> D. ivs1 ! a = ivs ! a \<or>
                 (is_float ra (ivs1 ! a) \<noteq> c \<and> is_float ra (ivs ! a) \<noteq> c)"
  proof
    fix a assume "a \<in> D"
    with i(1) have "a \<noteq> i" by auto
    then show "ivs1 ! a = ivs ! a \<or>
                 (is_float ra (ivs1 ! a) \<noteq> c \<and> is_float ra (ivs ! a) \<noteq> c)"
      by (simp add: ivs1)
  qed
  from set_inv_cong[OF len same inv] have inv1: "set_inv ra c ivs1 D s p" .
  have "\<not> holds_register ra (ivs1 ! i)" using i(2) by (simp add: ivs1 holds_register_def)
  with inv1 show ?thesis by (auto simp: set_inv_def)
qed

lemma split_spill_case:
  assumes inv: "set_inv ra c ivs D s p"
    and i: "i \<notin> D" "i < length ivs" "holds_register ra (ivs ! i)" "is_float ra (ivs ! i) = c"
    and ne: "active p \<noteq> []"
    and spill: "spill = last (active p)"
    and ivs1: "ivs1 = ivs[i := (ivs ! i)\<lparr>li_phys := li_phys (ivs ! spill)\<rparr>]"
    and ivs2: "ivs2 = ivs1[spill := (ivs1 ! spill)\<lparr>li_phys := pm, li_state := LI_SPILL\<rparr>]"
    and p1: "p1 = p\<lparr>active := insert_active ivs2 (butlast (active p)) i\<rparr>"
  shows "set_inv ra c ivs2 (insert i D) s p1"
proof -
  from inv have d: "distinct (active p)"
    and mem: "\<forall>a \<in> set (active p). a \<in> D \<and> a < length ivs \<and> holds_register ra (ivs ! a) \<and>
          is_float ra (ivs ! a) = c \<and> shift_ok (li_phys (ivs ! a)) \<and>
          bit (using_bits p) (nat (li_phys (ivs ! a)))"
    and inj: "inj_on (\<lambda>a. li_phys (ivs ! a)) (set (active p))"
    and srt: "sorted_wrt (\<lambda>a b. li_end (ivs ! a) \<le> li_end (ivs ! b)) (active p)"
    and old: "\<forall>a \<in> D. holds_register ra (ivs ! a) \<and> is_float ra (ivs ! a) = c \<and>
          a \<notin> set (active p) \<longrightarrow> li_end (ivs ! a) \<le> s"
    by (simp_all add: set_inv_def)
  have sp: "spill \<in> set (active p)" using ne spill by simp
  have spD: "spill \<in> D" and spl: "spill < length ivs" using mem sp by auto
  have si: "spill \<noteq> i" using spD i(1) by auto
  have ni: "i \<notin> set (active p)" using mem i(1) by auto
  have app: "active p = butlast (active p) @ [spill]" using ne spill by simp
  have bl: "set (butlast (active p)) = set (active p) - {spill}"
  proof -
    from app d have "distinct (butlast (active p) @ [spill])" by simp
    then have "spill \<notin> set (butlast (active p))" by simp
    moreover from app have "set (active p) = insert spill (set (butlast (active p)))"
      by (metis Un_insert_right append_Nil2 list.simps(15) set_append)
    ultimately show ?thesis by auto
  qed
  have other: "a \<noteq> i \<Longrightarrow> a \<noteq> spill \<Longrightarrow> ivs2 ! a = ivs ! a" for a
    by (simp add: ivs1 ivs2)
  have ati: "ivs2 ! i = (ivs ! i)\<lparr>li_phys := li_phys (ivs ! spill)\<rparr>"
    using i(2) si by (simp add: ivs1 ivs2)
  have atsp: "ivs2 ! spill = (ivs ! spill)\<lparr>li_phys := pm, li_state := LI_SPILL\<rparr>"
    using spl si by (simp add: ivs1 ivs2)
  have sr: "same_ranges ivs ivs2"
  proof (rule same_ranges_trans)
    show "same_ranges ivs ivs1" unfolding ivs1 by (rule same_ranges_update) (use i in auto)
    show "same_ranges ivs1 ivs2" unfolding ivs2
      by (rule same_ranges_update) (use spl in \<open>auto simp: ivs1\<close>)
  qed
  have len: "length ivs2 = length ivs" by (simp add: ivs1 ivs2)
  have set1: "set (active p1) = insert i (set (active p) - {spill})"
    by (simp add: p1 set_insert_active bl)
  have d1: "distinct (active p1)"
  proof -
    have "distinct (butlast (active p))" using d by (rule distinct_butlast)
    moreover have "i \<notin> set (butlast (active p))" using ni by (auto dest: in_set_butlastD)
    ultimately show ?thesis unfolding p1 by (simp add: distinct_insert_active)
  qed
  have mem1: "\<forall>a \<in> set (active p1). a \<in> insert i D \<and> a < length ivs2 \<and>
          holds_register ra (ivs2 ! a) \<and> is_float ra (ivs2 ! a) = c \<and>
          shift_ok (li_phys (ivs2 ! a)) \<and> bit (using_bits p1) (nat (li_phys (ivs2 ! a)))"
  proof
    fix a assume "a \<in> set (active p1)"
    with set1 consider "a = i" | "a \<in> set (active p)" "a \<noteq> i" "a \<noteq> spill" using ni by auto
    then show "a \<in> insert i D \<and> a < length ivs2 \<and>
          holds_register ra (ivs2 ! a) \<and> is_float ra (ivs2 ! a) = c \<and>
          shift_ok (li_phys (ivs2 ! a)) \<and> bit (using_bits p1) (nat (li_phys (ivs2 ! a)))"
    proof cases
      case 1
      with ati i mem sp len show ?thesis
        by (simp add: p1 holds_register_def has_vreg_def is_float_def)
    next
      case 2
      with mem other[of a] len show ?thesis by (simp add: p1)
    qed
  qed
  have inj1: "inj_on (\<lambda>a. li_phys (ivs2 ! a)) (set (active p1))"
    unfolding set1
  proof (rule inj_onI)
    fix a b assume a: "a \<in> insert i (set (active p) - {spill})"
      and b: "b \<in> insert i (set (active p) - {spill})"
      and e: "li_phys (ivs2 ! a) = li_phys (ivs2 ! b)"
    have diff: "li_phys (ivs ! x) \<noteq> li_phys (ivs ! spill)"
      if "x \<in> set (active p)" "x \<noteq> spill" for x
      using inj sp that by (auto dest: inj_onD)
    show "a = b"
    proof (cases "a = i"; cases "b = i")
      assume "a = i" "b = i" then show ?thesis by simp
    next
      assume "a = i" "b \<noteq> i"
      with b e ati other[of b] diff[of b] show ?thesis by auto
    next
      assume "a \<noteq> i" "b = i"
      with a e ati other[of a] diff[of a] show ?thesis by auto
    next
      assume "a \<noteq> i" "b \<noteq> i"
      with a b e other[of a] other[of b] inj show ?thesis by (auto dest: inj_onD)
    qed
  qed
  have srtb: "sorted_wrt (\<lambda>a b. li_end (ivs ! a) \<le> li_end (ivs ! b)) (butlast (active p))"
    using srt app by (metis sorted_wrt_append)
  have srt0: "sorted_wrt (\<lambda>a b. li_end (ivs2 ! a) \<le> li_end (ivs2 ! b)) (butlast (active p))"
    using sr _ srtb by (rule sorted_wrt_ends_cong) (use mem in \<open>auto dest: in_set_butlastD\<close>)
  have srt1: "sorted_wrt (\<lambda>a b. li_end (ivs2 ! a) \<le> li_end (ivs2 ! b)) (active p1)"
    unfolding p1 using srt0 by (simp add: sorted_insert_active)
  have nh: "\<not> holds_register ra (ivs2 ! spill)" using atsp by (simp add: holds_register_def)
  have old1: "\<forall>a \<in> insert i D. holds_register ra (ivs2 ! a) \<and> is_float ra (ivs2 ! a) = c \<and>
          a \<notin> set (active p1) \<longrightarrow> li_end (ivs2 ! a) \<le> s"
  proof (intro ballI impI)
    fix a assume a: "a \<in> insert i D"
      and h: "holds_register ra (ivs2 ! a) \<and> is_float ra (ivs2 ! a) = c \<and> a \<notin> set (active p1)"
    from h set1 have ai: "a \<noteq> i" by auto
    from h nh have asp: "a \<noteq> spill" by auto
    from a ai have aD: "a \<in> D" by simp
    from h set1 asp have "a \<notin> set (active p)" by auto
    with old aD h other[OF ai asp] show "li_end (ivs2 ! a) \<le> s" by simp
  qed
  from d1 mem1 inj1 srt1 old1 show ?thesis by (simp add: set_inv_def)
qed

lemma set_inv_skip:
  assumes "set_inv ra c ivs D cur p" and "cur \<le> s"
    and "\<not> (holds_register ra (ivs ! i) \<and> is_float ra (ivs ! i) = c)"
  shows "set_inv ra c ivs (insert i D) s p"
  using assms by (fastforce simp: set_inv_def)

lemma assign_or_split_inv:
  assumes inv: "set_inv ra c ivs D s p"
    and i: "i \<notin> D" "i < length ivs" "holds_register ra (ivs ! i)" "is_float ra (ivs ! i) = c"
    and reg: "0 \<le> regno \<longrightarrow> shift_ok regno \<and> \<not> bit (using_bits p) (nat regno)"
    and res: "assign_or_split ra ivs p i regno = Inr (ivs1, p1)"
  shows "set_inv ra c ivs1 (insert i D) s p1"
    and "same_ranges ivs ivs1"
    and "\<forall>a. a \<noteq> i \<longrightarrow>
           ivs1 ! a = ivs ! a \<or> (a \<in> set (active p) \<and> li_state (ivs1 ! a) = LI_SPILL)"
    and "li_state (ivs1 ! i) = LI_SPILL \<or>
           (li_state (ivs1 ! i) = LI_NORMAL \<and> i \<in> set (active p1))"
    and "prs_phys_max p1 = prs_phys_max p \<and> phys_temporary p1 = phys_temporary p"
proof -
  have st: "li_state (ivs ! i) = LI_NORMAL" using i(3) by (simp add: holds_register_def)
  have mem: "\<forall>a \<in> set (active p). a \<in> D \<and> a < length ivs"
    using inv by (simp add: set_inv_def)
  consider (assign) "0 \<le> regno" | (spill) "\<not> 0 \<le> regno" "active p \<noteq> []"
      "li_end (ivs ! last (active p)) > li_end (ivs ! i)"
    | (self) "\<not> 0 \<le> regno" "active p \<noteq> []"
      "\<not> li_end (ivs ! last (active p)) > li_end (ivs ! i)"
    using res by (cases "0 \<le> regno"; cases "active p = []")
      (auto simp: assign_or_split_def split_at_interval_def)
  then have "set_inv ra c ivs1 (insert i D) s p1 \<and> same_ranges ivs ivs1 \<and>
      (\<forall>a. a \<noteq> i \<longrightarrow>
           ivs1 ! a = ivs ! a \<or> (a \<in> set (active p) \<and> li_state (ivs1 ! a) = LI_SPILL)) \<and>
      (li_state (ivs1 ! i) = LI_SPILL \<or>
           (li_state (ivs1 ! i) = LI_NORMAL \<and> i \<in> set (active p1))) \<and>
      prs_phys_max p1 = prs_phys_max p \<and> phys_temporary p1 = phys_temporary p"
  proof cases
    case assign
    with reg have ok: "shift_ok regno" "\<not> bit (using_bits p) (nat regno)" by simp_all
    from res assign ok have e1: "ivs1 = ivs[i := (ivs ! i)\<lparr>li_phys := regno\<rparr>]"
      and e2: "p1 = p\<lparr>using_bits := using_bits p OR bit1 regno,
                     active := insert_active ivs1 (active p) i\<rparr>"
      by (auto simp: assign_or_split_def Let_def split: if_splits)
    have a: "set_inv ra c ivs1 (insert i D) s p1"
      by (rule assign_case[OF inv i ok e1 e2])
    have b: "same_ranges ivs ivs1" unfolding e1 by (rule same_ranges_update) (use i in auto)
    from a b i st show ?thesis by (simp add: e1 e2 set_insert_active)
  next
    case spill
    let ?sp = "last (active p)"
    let ?i1 = "ivs[i := (ivs ! i)\<lparr>li_phys := li_phys (ivs ! ?sp)\<rparr>]"
    from res spill have e1: "ivs1 = ?i1[?sp := (?i1 ! ?sp)\<lparr>li_phys := phys_max ra, li_state := LI_SPILL\<rparr>]"
      and e2: "p1 = p\<lparr>active := insert_active ivs1 (butlast (active p)) i\<rparr>"
      by (auto simp: assign_or_split_def split_at_interval_def Let_def)
    have a: "set_inv ra c ivs1 (insert i D) s p1"
      by (rule split_spill_case[OF inv i spill(2) refl refl e1 e2])
    have sp: "?sp \<in> set (active p)" using spill(2) by simp
    with mem have spl: "?sp < length ivs" and spD: "?sp \<in> D" by auto
    with i(1) have si: "?sp \<noteq> i" by auto
    have b: "same_ranges ivs ivs1"
    proof (rule same_ranges_trans)
      show "same_ranges ivs ?i1" by (rule same_ranges_update) (use i in auto)
      show "same_ranges ?i1 ivs1" unfolding e1
        by (rule same_ranges_update) (use spl in auto)
    qed
    have c1: "\<forall>a. a \<noteq> i \<longrightarrow>
           ivs1 ! a = ivs ! a \<or> (a \<in> set (active p) \<and> li_state (ivs1 ! a) = LI_SPILL)"
    proof (intro allI impI)
      fix a assume "a \<noteq> i"
      then show "ivs1 ! a = ivs ! a \<or> (a \<in> set (active p) \<and> li_state (ivs1 ! a) = LI_SPILL)"
        using sp spl by (cases "a = ?sp") (simp_all add: e1)
    qed
    have c2: "li_state (ivs1 ! i) = LI_NORMAL \<and> i \<in> set (active p1)"
      using i st si by (simp add: e1 e2 set_insert_active)
    from a b c1 c2 show ?thesis by (simp add: e2)
  next
    case self
    from res self have e1: "ivs1 = ivs[i := (ivs ! i)\<lparr>li_phys := phys_max ra, li_state := LI_SPILL\<rparr>]"
      and e2: "p1 = p"
      by (auto simp: assign_or_split_def split_at_interval_def Let_def)
    have a: "set_inv ra c ivs1 (insert i D) s p1"
      unfolding e2 by (rule split_self_case[OF inv i(1,2) e1])
    have b: "same_ranges ivs ivs1" unfolding e1 by (rule same_ranges_update) (use i in auto)
    from a b i show ?thesis by (simp add: e1 e2)
  qed
  then show "set_inv ra c ivs1 (insert i D) s p1"
    and "same_ranges ivs ivs1"
    and "\<forall>a. a \<noteq> i \<longrightarrow>
           ivs1 ! a = ivs ! a \<or> (a \<in> set (active p) \<and> li_state (ivs1 ! a) = LI_SPILL)"
    and "li_state (ivs1 ! i) = LI_SPILL \<or>
           (li_state (ivs1 ! i) = LI_NORMAL \<and> i \<in> set (active p1))"
    and "prs_phys_max p1 = prs_phys_max p \<and> phys_temporary p1 = phys_temporary p"
    by blast+
qed

lemma linear_scan_step_cases:
  assumes "linear_scan_step ra i st = Inr st'"
  shows "(st' = st \<and> \<not> holds_register ra (intervals st ! i)) \<or>
    (\<exists>v ireg freg regno0 start_index regno ivs1 prsp1.
       holds_register ra (intervals st ! i) \<and>
       vregs ra ! li_virt (intervals st ! i) = Some v \<and>
       expire_old_intervals (intervals st) (iregset st) (li_start (intervals st ! i)) = Inr ireg \<and>
       expire_old_intervals (intervals st) (fregset st) (li_start (intervals st ! i)) = Inr freg \<and>
       param_hint ra v (if VRTF_FLONUM (vtype v) then freg else ireg)
         (using_bits (if VRTF_FLONUM (vtype v) then freg else ireg) OR
            occupied_reg_bit (intervals st ! i)) = Inr (regno0, start_index) \<and>
       (if regno0 < 0
        then find_free (using_bits (if VRTF_FLONUM (vtype v) then freg else ireg) OR
                 occupied_reg_bit (intervals st ! i)) start_index
               (prs_phys_max (if VRTF_FLONUM (vtype v) then freg else ireg))
        else Inr regno0) = Inr regno \<and>
       assign_or_split ra (intervals st) (if VRTF_FLONUM (vtype v) then freg else ireg) i regno
         = Inr (ivs1, prsp1) \<and>
       st' = \<lparr>intervals = ivs1,
              iregset = (if VRTF_FLONUM (vtype v) then ireg
                         else prsp1\<lparr>used_bits := used_bits prsp1 OR using_bits prsp1\<rparr>),
              fregset = (if VRTF_FLONUM (vtype v)
                         then prsp1\<lparr>used_bits := used_bits prsp1 OR using_bits prsp1\<rparr>
                         else freg)\<rparr>)"
proof (cases "holds_register ra (intervals st ! i)")
  case False
  with assms have "st' = st"
    by (auto simp: linear_scan_step_def Let_def vreg_at_def holds_register_def has_vreg_def
        split: if_splits option.splits)
  with False show ?thesis by simp
next
  case True
  then obtain v where v: "vregs ra ! li_virt (intervals st ! i) = Some v"
    and lt: "li_virt (intervals st ! i) < length (vregs ra)"
    and n: "li_state (intervals st ! i) = LI_NORMAL"
    by (auto simp: holds_register_def has_vreg_def)
  let ?li = "intervals st ! i"
  let ?fl = "VRTF_FLONUM (vtype v)"
  from assms v lt n
  have run: "bindE (expire_old_intervals (intervals st) (iregset st) (li_start ?li)) (\<lambda>ireg.
            bindE (expire_old_intervals (intervals st) (fregset st) (li_start ?li)) (\<lambda>freg.
            bindE (param_hint ra v (if ?fl then freg else ireg)
                     (using_bits (if ?fl then freg else ireg) OR occupied_reg_bit ?li))
              (\<lambda>(regno0, start_index).
            bindE (if regno0 < 0
                   then find_free (using_bits (if ?fl then freg else ireg) OR occupied_reg_bit ?li)
                          start_index (prs_phys_max (if ?fl then freg else ireg))
                   else Inr regno0) (\<lambda>regno.
            bindE (assign_or_split ra (intervals st) (if ?fl then freg else ireg) i regno)
              (\<lambda>(ivs1, prsp1).
            Inr \<lparr>intervals = ivs1,
                 iregset = (if ?fl then ireg
                            else prsp1\<lparr>used_bits := used_bits prsp1 OR using_bits prsp1\<rparr>),
                 fregset = (if ?fl then prsp1\<lparr>used_bits := used_bits prsp1 OR using_bits prsp1\<rparr>
                            else freg)\<rparr>))))) = Inr st'"
    by (simp add: linear_scan_step_def Let_def vreg_at_def)
  from run obtain ireg where
    e1: "expire_old_intervals (intervals st) (iregset st) (li_start ?li) = Inr ireg"
    and run1: "bindE (expire_old_intervals (intervals st) (fregset st) (li_start ?li)) (\<lambda>freg.
            bindE (param_hint ra v (if ?fl then freg else ireg)
                     (using_bits (if ?fl then freg else ireg) OR occupied_reg_bit ?li))
              (\<lambda>(regno0, start_index).
            bindE (if regno0 < 0
                   then find_free (using_bits (if ?fl then freg else ireg) OR occupied_reg_bit ?li)
                          start_index (prs_phys_max (if ?fl then freg else ireg))
                   else Inr regno0) (\<lambda>regno.
            bindE (assign_or_split ra (intervals st) (if ?fl then freg else ireg) i regno)
              (\<lambda>(ivs1, prsp1).
            Inr \<lparr>intervals = ivs1,
                 iregset = (if ?fl then ireg
                            else prsp1\<lparr>used_bits := used_bits prsp1 OR using_bits prsp1\<rparr>),
                 fregset = (if ?fl then prsp1\<lparr>used_bits := used_bits prsp1 OR using_bits prsp1\<rparr>
                            else freg)\<rparr>)))) = Inr st'"
    unfolding bindE_Inr_iff[of "expire_old_intervals (intervals st) (iregset st) (li_start ?li)"]
    by blast
  from run1 obtain freg where
    e2: "expire_old_intervals (intervals st) (fregset st) (li_start ?li) = Inr freg"
    and run2: "bindE (param_hint ra v (if ?fl then freg else ireg)
                     (using_bits (if ?fl then freg else ireg) OR occupied_reg_bit ?li))
              (\<lambda>(regno0, start_index).
            bindE (if regno0 < 0
                   then find_free (using_bits (if ?fl then freg else ireg) OR occupied_reg_bit ?li)
                          start_index (prs_phys_max (if ?fl then freg else ireg))
                   else Inr regno0) (\<lambda>regno.
            bindE (assign_or_split ra (intervals st) (if ?fl then freg else ireg) i regno)
              (\<lambda>(ivs1, prsp1).
            Inr \<lparr>intervals = ivs1,
                 iregset = (if ?fl then ireg
                            else prsp1\<lparr>used_bits := used_bits prsp1 OR using_bits prsp1\<rparr>),
                 fregset = (if ?fl then prsp1\<lparr>used_bits := used_bits prsp1 OR using_bits prsp1\<rparr>
                            else freg)\<rparr>))) = Inr st'"
    unfolding bindE_Inr_iff[of "expire_old_intervals (intervals st) (fregset st) (li_start ?li)"]
    by blast
  let ?p = "if ?fl then freg else ireg"
  from run2 obtain h where
    e3: "param_hint ra v ?p (using_bits ?p OR occupied_reg_bit ?li) = Inr h"
    and run3: "(case h of (regno0, start_index) \<Rightarrow>
            bindE (if regno0 < 0
                   then find_free (using_bits ?p OR occupied_reg_bit ?li)
                          start_index (prs_phys_max ?p)
                   else Inr regno0) (\<lambda>regno.
            bindE (assign_or_split ra (intervals st) ?p i regno)
              (\<lambda>(ivs1, prsp1).
            Inr \<lparr>intervals = ivs1,
                 iregset = (if ?fl then ireg
                            else prsp1\<lparr>used_bits := used_bits prsp1 OR using_bits prsp1\<rparr>),
                 fregset = (if ?fl then prsp1\<lparr>used_bits := used_bits prsp1 OR using_bits prsp1\<rparr>
                            else freg)\<rparr>))) = Inr st'"
    unfolding bindE_Inr_iff[of "param_hint ra v ?p (using_bits ?p OR occupied_reg_bit ?li)"]
    by blast
  obtain regno0 start_index where h: "h = (regno0, start_index)" by (cases h)
  note run3' = run3[unfolded h prod.case]
  from run3' obtain regno where
    e4: "(if regno0 < 0
                   then find_free (using_bits ?p OR occupied_reg_bit ?li)
                          start_index (prs_phys_max ?p)
                   else Inr regno0) = Inr regno"
    and run4: "bindE (assign_or_split ra (intervals st) ?p i regno)
              (\<lambda>(ivs1, prsp1).
            Inr \<lparr>intervals = ivs1,
                 iregset = (if ?fl then ireg
                            else prsp1\<lparr>used_bits := used_bits prsp1 OR using_bits prsp1\<rparr>),
                 fregset = (if ?fl then prsp1\<lparr>used_bits := used_bits prsp1 OR using_bits prsp1\<rparr>
                            else freg)\<rparr>) = Inr st'"
    unfolding bindE_Inr_iff[of "if regno0 < 0
                   then find_free (using_bits ?p OR occupied_reg_bit ?li)
                          start_index (prs_phys_max ?p)
                   else Inr regno0"]
    by blast
  from run4 obtain r where
    e5: "assign_or_split ra (intervals st) ?p i regno = Inr r"
    and run5: "(case r of (ivs1, prsp1) \<Rightarrow>
            Inr \<lparr>intervals = ivs1,
                 iregset = (if ?fl then ireg
                            else prsp1\<lparr>used_bits := used_bits prsp1 OR using_bits prsp1\<rparr>),
                 fregset = (if ?fl then prsp1\<lparr>used_bits := used_bits prsp1 OR using_bits prsp1\<rparr>
                            else freg)\<rparr>) = (Inr st' :: ra_error + scan_state)"
    unfolding bindE_Inr_iff[of "assign_or_split ra (intervals st) ?p i regno"]
    by blast
  obtain ivs1 prsp1 where r: "r = (ivs1, prsp1)" by (cases r)
  from run5 r have e6: "st' = \<lparr>intervals = ivs1,
              iregset = (if ?fl then ireg
                         else prsp1\<lparr>used_bits := used_bits prsp1 OR using_bits prsp1\<rparr>),
              fregset = (if ?fl
                         then prsp1\<lparr>used_bits := used_bits prsp1 OR using_bits prsp1\<rparr>
                         else freg)\<rparr>"
    by simp
  from True v e1 e2 e3[unfolded h] e4 e5[unfolded r] e6 show ?thesis by blast
qed

lemma is_float_same_virt: "li_virt x = li_virt y \<Longrightarrow> is_float ra x = is_float ra y"
  by (simp add: is_float_def)

lemma pair_inv_skip:
  assumes "pair_inv ra ivs D" and "\<not> holds_register ra (ivs ! i)"
  shows "pair_inv ra ivs (insert i D)"
  using assms unfolding pair_inv_def by blast

lemma linear_scan_step_inv:
  assumes inv: "scan_inv ra D cur st"
    and i: "i \<notin> D" "i < length (intervals st)"
    and le: "cur \<le> li_start (intervals st ! i)"
    and step: "linear_scan_step ra i st = Inr st'"
  shows "scan_inv ra (insert i D) (li_start (intervals st ! i)) st'"
    and "same_ranges (intervals st) (intervals st')"
    and "\<forall>a. a \<notin> insert i D \<longrightarrow> intervals st' ! a = intervals st ! a"
    and "\<forall>a. li_state (intervals st ! a) \<noteq> LI_NORMAL \<longrightarrow> intervals st' ! a = intervals st ! a"
proof -
  let ?ivs = "intervals st"
  let ?s = "li_start (?ivs ! i)"
  from inv have invI: "set_inv ra False ?ivs D cur (iregset st)"
    and invF: "set_inv ra True ?ivs D cur (fregset st)"
    and invP: "pair_inv ra ?ivs D"
    by (simp_all add: scan_inv_def)
  from linear_scan_step_cases[OF step]
  have "scan_inv ra (insert i D) ?s st' \<and> same_ranges ?ivs (intervals st') \<and>
        (\<forall>a. a \<notin> insert i D \<longrightarrow> intervals st' ! a = ?ivs ! a) \<and>
        (\<forall>a. li_state (?ivs ! a) \<noteq> LI_NORMAL \<longrightarrow> intervals st' ! a = ?ivs ! a)"
  proof (elim disjE conjE exE)
    assume e: "st' = st" and nh: "\<not> holds_register ra (?ivs ! i)"
    from set_inv_skip[OF invI le] nh have a: "set_inv ra False ?ivs (insert i D) ?s (iregset st)"
      by simp
    from set_inv_skip[OF invF le] nh have b: "set_inv ra True ?ivs (insert i D) ?s (fregset st)"
      by simp
    from pair_inv_skip[OF invP nh] a b e show ?thesis by (simp add: scan_inv_def)
  next
    fix v :: VReg and ireg freg prsp1 :: PhysicalRegisterSet
      and regno0 start_index regno :: int and ivs1 :: "LiveInterval list"
    let ?c = "VRTF_FLONUM (vtype v)"
    let ?p = "if ?c then freg else ireg"
    let ?q = "if ?c then ireg else freg"
    let ?occ = "using_bits ?p OR occupied_reg_bit (?ivs ! i)"
    assume h: "holds_register ra (?ivs ! i)"
      and v: "vregs ra ! li_virt (?ivs ! i) = Some v"
      and e1: "expire_old_intervals ?ivs (iregset st) ?s = Inr ireg"
      and e2: "expire_old_intervals ?ivs (fregset st) ?s = Inr freg"
      and e3: "param_hint ra v ?p ?occ = Inr (regno0, start_index)"
      and e4: "(if regno0 < 0 then find_free ?occ start_index (prs_phys_max ?p)
                else Inr regno0) = Inr regno"
      and e5: "assign_or_split ra ?ivs ?p i regno = Inr (ivs1, prsp1)"
      and e6: "st' = \<lparr>intervals = ivs1,
              iregset = (if ?c then ireg
                         else prsp1\<lparr>used_bits := used_bits prsp1 OR using_bits prsp1\<rparr>),
              fregset = (if ?c
                         then prsp1\<lparr>used_bits := used_bits prsp1 OR using_bits prsp1\<rparr>
                         else freg)\<rparr>"
    have cls: "is_float ra (?ivs ! i) = ?c" using v by (simp add: is_float_def)
    have sI: "set_inv ra False ?ivs D ?s ireg" by (rule set_inv_expire(1)[OF invI e1 le])
    have sF: "set_inv ra True ?ivs D ?s freg" by (rule set_inv_expire(1)[OF invF e2 le])
    have sp: "set_inv ra ?c ?ivs D ?s ?p" using sI sF by simp
    have sq: "set_inv ra (\<not> ?c) ?ivs D ?s ?q" using sI sF by simp
    have reg: "0 \<le> regno \<longrightarrow> shift_ok regno \<and> \<not> bit (using_bits ?p) (nat regno)"
    proof
      assume nn: "0 \<le> regno"
      have "shift_ok regno \<and> ?occ AND bit1 regno = 0"
      proof (cases "regno0 < 0")
        case True
        with e4 have "find_free ?occ start_index (prs_phys_max ?p) = Inr regno" by simp
        from find_free_result[OF this] nn show ?thesis by simp
      next
        case False
        with e4 have "regno = regno0" by simp
        with param_hint_result[OF e3] False show ?thesis by simp
      qed
      then have "shift_ok regno" and "\<not> bit ?occ (nat regno)"
        using bit1_test[of regno ?occ] by blast+
      then show "shift_ok regno \<and> \<not> bit (using_bits ?p) (nat regno)"
        by (simp add: bit_or_iff)
    qed
    note A = assign_or_split_inv[OF sp i h cls reg e5]
    from A(1) have sp1: "set_inv ra ?c ivs1 (insert i D) ?s prsp1" .
    from A(2) have sr: "same_ranges ?ivs ivs1" .
    from A(3) have fr: "\<forall>a. a \<noteq> i \<longrightarrow>
           ivs1 ! a = ?ivs ! a \<or> (a \<in> set (active ?p) \<and> li_state (ivs1 ! a) = LI_SPILL)" .
    from A(4) have sti: "li_state (ivs1 ! i) = LI_SPILL \<or>
           (li_state (ivs1 ! i) = LI_NORMAL \<and> i \<in> set (active prsp1))" .
    from sp have actp: "\<forall>a \<in> set (active ?p). a \<in> D \<and> a < length ?ivs \<and>
        holds_register ra (?ivs ! a) \<and> is_float ra (?ivs ! a) = ?c"
      by (simp add: set_inv_def)
    have virt: "a < length ?ivs \<Longrightarrow> li_virt (ivs1 ! a) = li_virt (?ivs ! a)" for a
      using sr by (simp add: same_ranges_def)
    have len: "length ivs1 = length ?ivs" using sr by (simp add: same_ranges_def)
    have starti: "li_start (ivs1 ! i) = ?s" and endi: "li_end (ivs1 ! i) = li_end (?ivs ! i)"
      using sr i(2) by (simp_all add: same_ranges_def)
    have clsi: "is_float ra (ivs1 ! i) = ?c"
      using cls virt[OF i(2)] by (simp add: is_float_def)
    \<comment> \<open>the register set of the other class\<close>
    have same_q: "\<forall>a \<in> D. ivs1 ! a = ?ivs ! a \<or>
        (is_float ra (ivs1 ! a) \<noteq> (\<not> ?c) \<and> is_float ra (?ivs ! a) \<noteq> (\<not> ?c))"
    proof
      fix a assume aD: "a \<in> D"
      with i(1) have "a \<noteq> i" by auto
      with fr have "ivs1 ! a = ?ivs ! a \<or> a \<in> set (active ?p)" by blast
      then show "ivs1 ! a = ?ivs ! a \<or>
        (is_float ra (ivs1 ! a) \<noteq> (\<not> ?c) \<and> is_float ra (?ivs ! a) \<noteq> (\<not> ?c))"
      proof
        assume "ivs1 ! a = ?ivs ! a" then show ?thesis by simp
      next
        assume a: "a \<in> set (active ?p)"
        with actp have "a < length ?ivs" "is_float ra (?ivs ! a) = ?c" by auto
        with virt[of a] show ?thesis by (auto simp: is_float_def)
      qed
    qed
    have sq1: "set_inv ra (\<not> ?c) ivs1 (insert i D) ?s ?q"
    proof -
      have "set_inv ra (\<not> ?c) ivs1 D ?s ?q" by (rule set_inv_cong[OF len same_q sq])
      then show ?thesis by (rule set_inv_skip) (use clsi in auto)
    qed
    \<comment> \<open>pairs\<close>
    have keep: "ivs1 ! a = ?ivs ! a" if "a \<noteq> i" "holds_register ra (ivs1 ! a)" for a
      using fr that by (auto simp: holds_register_def)
    have actsub: "set (active prsp1) \<subseteq> insert i D"
      using sp1 by (auto simp: set_inv_def)
    have newpair: "li_phys (ivs1 ! a) \<noteq> li_phys (ivs1 ! i)"
      if a: "a \<in> D" "holds_register ra (ivs1 ! a)" "holds_register ra (ivs1 ! i)"
        "is_float ra (ivs1 ! a) = is_float ra (ivs1 ! i)" "li_start (ivs1 ! i) < li_end (ivs1 ! a)"
      for a
    proof -
      from a(1) i(1) have ai: "a \<noteq> i" by auto
      from a(3) sti have iact: "i \<in> set (active prsp1)" by (auto simp: holds_register_def)
      have aact: "a \<in> set (active prsp1)"
      proof (rule ccontr)
        assume "a \<notin> set (active prsp1)"
        with sp1 a(1,2,4) clsi have "li_end (ivs1 ! a) \<le> ?s"
          by (simp add: set_inv_def)
        with a(5) starti show False by simp
      qed
      from sp1 have "inj_on (\<lambda>a. li_phys (ivs1 ! a)) (set (active prsp1))"
        by (simp add: set_inv_def)
      with aact iact ai show ?thesis by (auto dest: inj_onD)
    qed
    have pi: "pair_inv ra ivs1 (insert i D)"
      unfolding pair_inv_def
    proof (intro conjI ballI impI)
      fix a b assume a: "a \<in> insert i D" and b: "b \<in> insert i D"
        and c: "a \<noteq> b \<and> holds_register ra (ivs1 ! a) \<and> holds_register ra (ivs1 ! b) \<and>
          is_float ra (ivs1 ! a) = is_float ra (ivs1 ! b) \<and> overlap (ivs1 ! a) (ivs1 ! b)"
      show "li_phys (ivs1 ! a) \<noteq> li_phys (ivs1 ! b)"
      proof (cases "a = i"; cases "b = i")
        assume "a = i" "b = i" with c show ?thesis by simp
      next
        assume ai: "a = i" and bi: "b \<noteq> i"
        with b have "b \<in> D" by simp
        from newpair[OF this] c ai show ?thesis by (auto simp: overlap_def)
      next
        assume ai: "a \<noteq> i" and bi: "b = i"
        with a have "a \<in> D" by simp
        from newpair[OF this] c bi show ?thesis by (auto simp: overlap_def)
      next
        assume ai: "a \<noteq> i" and bi: "b \<noteq> i"
        with a b have aD: "a \<in> D" and bD: "b \<in> D" by simp_all
        from keep[OF ai] keep[OF bi] c have "ivs1 ! a = ?ivs ! a" "ivs1 ! b = ?ivs ! b" by simp_all
        with invP aD bD c show ?thesis unfolding pair_inv_def by metis
      qed
    next
      fix a assume a: "a \<in> insert i D" and hr: "holds_register ra (ivs1 ! a)"
      show "shift_ok (li_phys (ivs1 ! a))"
      proof (cases "a = i")
        case True
        with hr sti have "i \<in> set (active prsp1)" by (auto simp: holds_register_def)
        with sp1 True show ?thesis by (simp add: set_inv_def)
      next
        case False
        with a have aD: "a \<in> D" by simp
        from keep[OF False hr] have "ivs1 ! a = ?ivs ! a" .
        with invP aD hr show ?thesis by (simp add: pair_inv_def)
      qed
    qed
    have fr1: "\<forall>a. a \<notin> insert i D \<longrightarrow> ivs1 ! a = ?ivs ! a"
      using fr actp by auto
    have fr2: "\<forall>a. li_state (?ivs ! a) \<noteq> LI_NORMAL \<longrightarrow> ivs1 ! a = ?ivs ! a"
    proof (intro allI impI)
      fix a assume n: "li_state (?ivs ! a) \<noteq> LI_NORMAL"
      with h have "a \<noteq> i" by (auto simp: holds_register_def)
      with fr have "ivs1 ! a = ?ivs ! a \<or> a \<in> set (active ?p)" by blast
      with actp n show "ivs1 ! a = ?ivs ! a" by (auto simp: holds_register_def)
    qed
    from sp1 sq1 pi sr fr1 fr2 show ?thesis
      by (cases ?c) (simp_all add: e6 scan_inv_def)
  qed
  then show "scan_inv ra (insert i D) (li_start (intervals st ! i)) st'"
    and "same_ranges (intervals st) (intervals st')"
    and "\<forall>a. a \<notin> insert i D \<longrightarrow> intervals st' ! a = intervals st ! a"
    and "\<forall>a. li_state (intervals st ! a) \<noteq> LI_NORMAL \<longrightarrow> intervals st' ! a = intervals st ! a"
    by blast+
qed

lemma scan_inv_init: "scan_inv ra {} cur (scan_init ra ivs0)"
  by (simp add: scan_inv_def scan_init_def set_inv_def pair_inv_def)

lemma linear_scan_loop_inv:
  assumes "scan_inv ra D cur st"
    and "distinct xs" and "set xs \<inter> D = {}"
    and "\<forall>i \<in> set xs. i < length (intervals st)"
    and "sorted_wrt (\<lambda>a b. li_start (intervals st ! a) \<le> li_start (intervals st ! b)) xs"
    and "\<forall>i \<in> set xs. cur \<le> li_start (intervals st ! i)"
    and "linear_scan_loop ra xs st = Inr st'"
  shows "scan_inv ra (D \<union> set xs)
           (if xs = [] then cur else li_start (intervals st ! last xs)) st' \<and>
         same_ranges (intervals st) (intervals st') \<and>
         (\<forall>a. a \<notin> D \<union> set xs \<longrightarrow> intervals st' ! a = intervals st ! a) \<and>
         (\<forall>a. li_state (intervals st ! a) \<noteq> LI_NORMAL \<longrightarrow> intervals st' ! a = intervals st ! a)"
  using assms
proof (induction xs arbitrary: D cur st)
  case Nil
  then show ?case by simp
next
  case (Cons i xs)
  from Cons.prems(7) obtain st1 where step: "linear_scan_step ra i st = Inr st1"
    and rest: "linear_scan_loop ra xs st1 = Inr st'"
    by (auto split: sum.splits)
  from Cons.prems have iD: "i \<notin> D" and il: "i < length (intervals st)"
    and le: "cur \<le> li_start (intervals st ! i)"
    by auto
  note S = linear_scan_step_inv[OF Cons.prems(1) iD il le step]
  from S(2) have sr: "same_ranges (intervals st) (intervals st1)" .
  have start1: "li_start (intervals st1 ! a) = li_start (intervals st ! a)"
    if "a < length (intervals st)" for a
    using sr that by (simp add: same_ranges_def)
  have len1: "length (intervals st1) = length (intervals st)"
    using sr by (simp add: same_ranges_def)
  have p2: "distinct xs" using Cons.prems(2) by simp
  have p3: "set xs \<inter> insert i D = {}" using Cons.prems(2,3) by auto
  have p4: "\<forall>j \<in> set xs. j < length (intervals st1)" using Cons.prems(4) len1 by simp
  have p5: "sorted_wrt (\<lambda>a b. li_start (intervals st1 ! a) \<le> li_start (intervals st1 ! b)) xs"
  proof -
    from Cons.prems(5)
    have "sorted_wrt (\<lambda>a b. li_start (intervals st ! a) \<le> li_start (intervals st ! b)) xs"
      by simp
    then show ?thesis
      by (rule sorted_wrt_mono_rel[rotated]) (use Cons.prems(4) start1 in auto)
  qed
  have p6: "\<forall>j \<in> set xs. li_start (intervals st ! i) \<le> li_start (intervals st1 ! j)"
    using Cons.prems(4,5) start1 by auto
  from Cons.IH[OF S(1) p2 p3 p4 p5 p6 rest]
  have a: "scan_inv ra (insert i D \<union> set xs)
           (if xs = [] then li_start (intervals st ! i) else li_start (intervals st1 ! last xs)) st'"
    and b: "same_ranges (intervals st1) (intervals st')"
    and c: "\<forall>a. a \<notin> insert i D \<union> set xs \<longrightarrow> intervals st' ! a = intervals st1 ! a"
    and d: "\<forall>a. li_state (intervals st1 ! a) \<noteq> LI_NORMAL \<longrightarrow> intervals st' ! a = intervals st1 ! a"
    by blast+
  have lastx: "xs \<noteq> [] \<Longrightarrow> li_start (intervals st1 ! last xs) = li_start (intervals st ! last xs)"
    using start1 Cons.prems(4) by simp
  have a': "scan_inv ra (D \<union> set (i # xs))
           (if i # xs = [] then cur else li_start (intervals st ! last (i # xs))) st'"
    using a lastx by (cases "xs = []") simp_all
  have b': "same_ranges (intervals st) (intervals st')"
    using sr b by (rule same_ranges_trans)
  have c': "\<forall>a. a \<notin> D \<union> set (i # xs) \<longrightarrow> intervals st' ! a = intervals st ! a"
    using c S(3) by simp
  have d': "\<forall>a. li_state (intervals st ! a) \<noteq> LI_NORMAL \<longrightarrow> intervals st' ! a = intervals st ! a"
  proof (intro allI impI)
    fix a assume n: "li_state (intervals st ! a) \<noteq> LI_NORMAL"
    with S(4) have e: "intervals st1 ! a = intervals st ! a" by simp
    with n d show "intervals st' ! a = intervals st ! a" by simp
  qed
  from a' b' c' d' show ?case by blast
qed

text \<open>
  C2 (as amended). Let the intervals be handled in an order without repetition that is
  sorted by start, as \<open>qsort\<close> leaves \<open>sorted_intervals\<close>, and let
  \<open>linear_scan_register_allocation\<close> complete. Then any two of the intervals that
  both hold a register, belong to the same class and overlap (each starts strictly
  before the other ends) have different physical registers; and every interval with a
  vreg is constant, or spilled, or in state \<open>LI_NORMAL\<close> with a physical register
  number in \<open>0..63\<close>.
\<close>

theorem linear_scan_no_conflict:
  assumes run: "linear_scan_register_allocation ra sorted_intervals ivs0 = Inr (ra', ivs')"
    and dist: "distinct sorted_intervals"
    and bound: "\<forall>i \<in> set sorted_intervals. i < length ivs0"
    and srt: "sorted_wrt (\<lambda>a b. li_start (ivs0 ! a) \<le> li_start (ivs0 ! b)) sorted_intervals"
  shows "(\<forall>a \<in> set sorted_intervals. \<forall>b \<in> set sorted_intervals.
            a \<noteq> b \<and> holds_register ra (ivs' ! a) \<and> holds_register ra (ivs' ! b) \<and>
            is_float ra (ivs' ! a) = is_float ra (ivs' ! b) \<and> overlap (ivs' ! a) (ivs' ! b)
            \<longrightarrow> li_phys (ivs' ! a) \<noteq> li_phys (ivs' ! b)) \<and>
         (\<forall>a \<in> set sorted_intervals. has_vreg ra (ivs' ! a) \<longrightarrow>
            li_state (ivs' ! a) = LI_CONST \<or> li_state (ivs' ! a) = LI_SPILL \<or>
            (li_state (ivs' ! a) = LI_NORMAL \<and> 0 \<le> li_phys (ivs' ! a) \<and> li_phys (ivs' ! a) < 64))"
proof -
  from run obtain st where loop: "linear_scan_loop ra sorted_intervals (scan_init ra ivs0) = Inr st"
    and ivs': "ivs' = intervals st"
    by (auto simp: linear_scan_register_allocation_def split: sum.splits)
  define cur where "cur = (if sorted_intervals = [] then 0 else li_start (ivs0 ! hd sorted_intervals))"
  have i0: "intervals (scan_init ra ivs0) = ivs0" by (simp add: scan_init_def)
  have le: "\<forall>i \<in> set sorted_intervals. cur \<le> li_start (ivs0 ! i)"
  proof (cases sorted_intervals)
    case Nil then show ?thesis by simp
  next
    case (Cons x xs)
    with srt show ?thesis by (auto simp: cur_def)
  qed
  from linear_scan_loop_inv[OF scan_inv_init[of ra cur ivs0] dist _ _ _ _ loop] bound srt le
  obtain c' where inv: "scan_inv ra (set sorted_intervals) c' st"
    by (auto simp: i0)
  then have p: "pair_inv ra ivs' (set sorted_intervals)" by (simp add: scan_inv_def ivs')
  have one: "\<forall>a \<in> set sorted_intervals. \<forall>b \<in> set sorted_intervals.
            a \<noteq> b \<and> holds_register ra (ivs' ! a) \<and> holds_register ra (ivs' ! b) \<and>
            is_float ra (ivs' ! a) = is_float ra (ivs' ! b) \<and> overlap (ivs' ! a) (ivs' ! b)
            \<longrightarrow> li_phys (ivs' ! a) \<noteq> li_phys (ivs' ! b)"
    using p unfolding pair_inv_def by blast
  have two: "\<forall>a \<in> set sorted_intervals. has_vreg ra (ivs' ! a) \<longrightarrow>
            li_state (ivs' ! a) = LI_CONST \<or> li_state (ivs' ! a) = LI_SPILL \<or>
            (li_state (ivs' ! a) = LI_NORMAL \<and> 0 \<le> li_phys (ivs' ! a) \<and> li_phys (ivs' ! a) < 64)"
  proof (intro ballI impI)
    fix a assume a: "a \<in> set sorted_intervals" and h: "has_vreg ra (ivs' ! a)"
    show "li_state (ivs' ! a) = LI_CONST \<or> li_state (ivs' ! a) = LI_SPILL \<or>
            (li_state (ivs' ! a) = LI_NORMAL \<and> 0 \<le> li_phys (ivs' ! a) \<and> li_phys (ivs' ! a) < 64)"
    proof (cases "li_state (ivs' ! a)")
      case LI_NORMAL
      with h have "holds_register ra (ivs' ! a)" by (simp add: holds_register_def)
      with p a have "shift_ok (li_phys (ivs' ! a))" by (simp add: pair_inv_def)
      with LI_NORMAL show ?thesis by (simp add: shift_ok_def)
    qed simp_all
  qed
  from one two show ?thesis by blast
qed

text \<open>
  The theorem at three integer intervals \<open>[0,9]\<close>, \<open>[1,5]\<close>, \<open>[2,4]\<close> and two
  registers: the first is spilled, the other two overlap and hold registers 1 and 0.
\<close>

lemma scan_sample_run:
  "\<exists>ra'. linear_scan_register_allocation (ra_sample 3 2) [0, 1, 2] scan_sample
           = Inr (ra', scan_sample_result)"
proof -
  have "case linear_scan_register_allocation (ra_sample 3 2) [0, 1, 2] scan_sample of
      Inl _ \<Rightarrow> False | Inr (r, iv) \<Rightarrow> iv = scan_sample_result"
    by code_simp
  then show ?thesis by (auto split: sum.splits)
qed

theorem linear_scan_no_conflict_witness:
  "li_phys (scan_sample_result ! 1) \<noteq> li_phys (scan_sample_result ! 2) \<and>
   li_state (scan_sample_result ! 0) = LI_SPILL \<and>
   0 \<le> li_phys (scan_sample_result ! 1) \<and> li_phys (scan_sample_result ! 1) < 64"
proof -
  from scan_sample_run obtain ra'
    where run: "linear_scan_register_allocation (ra_sample 3 2) [0, 1, 2] scan_sample
           = Inr (ra', scan_sample_result)" ..
  have d: "distinct [0, 1, 2 :: nat]" by simp
  have b: "\<forall>i \<in> set [0, 1, 2 :: nat]. i < length scan_sample" by (simp add: scan_sample_def)
  have s: "sorted_wrt (\<lambda>a b. li_start (scan_sample ! a) \<le> li_start (scan_sample ! b)) [0, 1, 2]"
    by (simp add: scan_sample_def interval_sample_def)
  note T = linear_scan_no_conflict[OF run d b s]
  have h: "holds_register (ra_sample 3 2) (scan_sample_result ! 1)"
    "holds_register (ra_sample 3 2) (scan_sample_result ! 2)"
    "is_float (ra_sample 3 2) (scan_sample_result ! 1) = is_float (ra_sample 3 2) (scan_sample_result ! 2)"
    "overlap (scan_sample_result ! 1) (scan_sample_result ! 2)"
    "has_vreg (ra_sample 3 2) (scan_sample_result ! 1)"
    by (simp_all add: holds_register_def has_vreg_def is_float_def overlap_def
        scan_sample_result_def interval_sample_def ra_sample_def vreg_sample_def vtInt_def
        upt_rec)
  from T h have "li_phys (scan_sample_result ! 1) \<noteq> li_phys (scan_sample_result ! 2)"
    by auto
  moreover from T h have "li_state (scan_sample_result ! 1) = LI_CONST \<or>
      li_state (scan_sample_result ! 1) = LI_SPILL \<or>
      (li_state (scan_sample_result ! 1) = LI_NORMAL \<and> 0 \<le> li_phys (scan_sample_result ! 1) \<and>
       li_phys (scan_sample_result ! 1) < 64)"
    by auto
  ultimately show ?thesis
    by (simp add: scan_sample_result_def interval_sample_def)
qed

text \<open>
  The claim as stated fails for intervals that share one position: with \<open>[0,5]\<close> and
  \<open>[5,8]\<close> the first interval is expired when the second starts
  (\<open>expire_old_intervals\<close> removes every interval with \<open>end <= start\<close>), and both
  hold register 0 although position 5 lies in both.
\<close>

theorem touching_intervals_share_register:
  "\<not> isl (linear_scan_register_allocation (ra_sample 2 2) [0, 1] touching_sample) \<and>
   li_state (snd (projr (linear_scan_register_allocation (ra_sample 2 2) [0, 1] touching_sample)) ! 0)
      = LI_NORMAL \<and>
   li_state (snd (projr (linear_scan_register_allocation (ra_sample 2 2) [0, 1] touching_sample)) ! 1)
      = LI_NORMAL \<and>
   li_start (touching_sample ! 1) \<le> li_end (touching_sample ! 0) \<and>
   li_start (touching_sample ! 0) \<le> li_end (touching_sample ! 1) \<and>
   li_phys (snd (projr (linear_scan_register_allocation (ra_sample 2 2) [0, 1] touching_sample)) ! 0)
     = li_phys (snd (projr (linear_scan_register_allocation (ra_sample 2 2) [0, 1] touching_sample)) ! 1)"
  by code_simp

subsection \<open>Linear scan: choosing the interval to spill\<close>

lemma param_hint_register:
  "param_hint ra vreg prsp occ = Inr (r, si) \<Longrightarrow> 0 \<le> r \<Longrightarrow> r = hinted_register ra vreg"
  by (auto simp: param_hint_def hinted_register_def Let_def split: if_splits)

lemma sorted_wrt_last_max:
  assumes "sorted_wrt (\<lambda>a b. f a \<le> f b) xs" and "xs \<noteq> []"
  shows "\<forall>a \<in> set xs. (f a :: int) \<le> f (last xs)"
proof -
  from assms(2) have xs: "xs = butlast xs @ [last xs]" by simp
  from assms(1) have "sorted_wrt (\<lambda>a b. f a \<le> f b) (butlast xs @ [last xs])"
    using xs by simp
  then have "\<forall>a \<in> set (butlast xs). f a \<le> f (last xs)"
    by (simp add: sorted_wrt_append)
  moreover have "set xs = insert (last xs) (set (butlast xs))"
    by (metis xs Un_insert_right append_Nil2 list.simps(15) set_append)
  ultimately show ?thesis by auto
qed

text \<open>
  C3. Let \<open>st\<close> be the state the scan has reached before interval \<open>i\<close>, let \<open>prsp\<close>
  be the register set of \<open>i\<close>'s class after \<open>expire_old_intervals\<close>, and let no
  register of the class be free for \<open>i\<close>: every register below \<open>phys_max\<close> of the
  set is in \<open>using_bits\<close> or in \<open>i\<close>'s \<open>occupied_reg_bit\<close> (a hinted parameter
  register being one of them). If the iteration for \<open>i\<close> completes, then some interval
  is active, the last active interval ends no earlier than any other active interval,
  and: if it ends strictly later than \<open>i\<close>, it is marked \<open>LI_SPILL\<close> with the
  sentinel \<open>ra->phys_max\<close> and \<open>i\<close> takes over its register; otherwise \<open>i\<close> is
  marked \<open>LI_SPILL\<close> with the sentinel. No other interval changes.
\<close>

theorem split_takes_farthest_end:
  assumes reach: "linear_scan_loop ra pre (scan_init ra ivs0) = Inr st"
    and dist: "distinct (pre @ [i])"
    and bound: "\<forall>k \<in> set (pre @ [i]). k < length ivs0"
    and srt: "sorted_wrt (\<lambda>a b. li_start (ivs0 ! a) \<le> li_start (ivs0 ! b)) (pre @ [i])"
    and v: "li_virt (intervals st ! i) < length (vregs ra)"
      "vregs ra ! li_virt (intervals st ! i) = Some v"
      "li_state (intervals st ! i) = LI_NORMAL"
    and e1: "expire_old_intervals (intervals st) (iregset st) (li_start (intervals st ! i))
               = Inr ireg"
    and e2: "expire_old_intervals (intervals st) (fregset st) (li_start (intervals st ! i))
               = Inr freg"
    and prsp: "prsp = (if VRTF_FLONUM (vtype v) then freg else ireg)"
    and full: "\<forall>j. 0 \<le> j \<and> j < prs_phys_max prsp \<longrightarrow>
                 bit (using_bits prsp OR occupied_reg_bit (intervals st ! i)) (nat j)"
    and hint: "hinted_register ra v < prs_phys_max prsp"
    and step: "linear_scan_step ra i st = Inr st'"
  shows "active prsp \<noteq> [] \<and>
    (\<forall>a \<in> set (active prsp).
        li_end (intervals st ! a) \<le> li_end (intervals st ! last (active prsp))) \<and>
    (if li_end (intervals st ! last (active prsp)) > li_end (intervals st ! i)
     then intervals st' = (intervals st)
            [i := (intervals st ! i)\<lparr>li_phys := li_phys (intervals st ! last (active prsp))\<rparr>,
             last (active prsp) := (intervals st ! last (active prsp))
                \<lparr>li_phys := phys_max ra, li_state := LI_SPILL\<rparr>]
     else intervals st' = (intervals st)
            [i := (intervals st ! i)\<lparr>li_phys := phys_max ra, li_state := LI_SPILL\<rparr>])"
proof -
  let ?ivs = "intervals st"
  let ?s = "li_start (?ivs ! i)"
  let ?c = "VRTF_FLONUM (vtype v)"
  let ?occ = "using_bits prsp OR occupied_reg_bit (?ivs ! i)"
  define cur where "cur = (if pre = [] then li_start (ivs0 ! i) else li_start (ivs0 ! hd pre))"
  have i0: "intervals (scan_init ra ivs0) = ivs0" by (simp add: scan_init_def)
  have dpre: "distinct pre" and ipre: "i \<notin> set pre" using dist by simp_all
  have bpre: "\<forall>k \<in> set pre. k < length ivs0" and il0: "i < length ivs0" using bound by simp_all
  have spre: "sorted_wrt (\<lambda>a b. li_start (ivs0 ! a) \<le> li_start (ivs0 ! b)) pre"
    and before: "\<forall>k \<in> set pre. li_start (ivs0 ! k) \<le> li_start (ivs0 ! i)"
    using srt by (simp_all add: sorted_wrt_append)
  have le: "\<forall>k \<in> set pre. cur \<le> li_start (ivs0 ! k)"
  proof (cases pre)
    case Nil then show ?thesis by simp
  next
    case (Cons x xs)
    with spre show ?thesis by (auto simp: cur_def)
  qed
  from linear_scan_loop_inv[OF scan_inv_init[of ra cur ivs0] dpre _ _ _ _ reach] bpre spre le
  have inv: "scan_inv ra (set pre) (if pre = [] then cur else li_start (ivs0 ! last pre)) st"
    and sr: "same_ranges ivs0 ?ivs"
    by (auto simp: i0)
  have il: "i < length ?ivs" using sr il0 by (simp add: same_ranges_def)
  have si: "?s = li_start (ivs0 ! i)" using sr il0 by (simp add: same_ranges_def)
  have cle: "(if pre = [] then cur else li_start (ivs0 ! last pre)) \<le> ?s"
    using before si by (auto simp: cur_def)
  have h: "holds_register ra (?ivs ! i)" using v by (simp add: holds_register_def has_vreg_def)
  from inv have invI: "set_inv ra False ?ivs (set pre) (if pre = [] then cur else li_start (ivs0 ! last pre)) (iregset st)"
    and invF: "set_inv ra True ?ivs (set pre) (if pre = [] then cur else li_start (ivs0 ! last pre)) (fregset st)"
    by (simp_all add: scan_inv_def)
  have sI: "set_inv ra False ?ivs (set pre) ?s ireg" by (rule set_inv_expire(1)[OF invI e1 cle])
  have sF: "set_inv ra True ?ivs (set pre) ?s freg" by (rule set_inv_expire(1)[OF invF e2 cle])
  have sp: "set_inv ra ?c ?ivs (set pre) ?s prsp" using sI sF prsp by simp
  from linear_scan_step_cases[OF step] h v(2) e1 e2 prsp
  obtain regno0 start_index regno ivs1 prsp1
    where e3: "param_hint ra v prsp ?occ = Inr (regno0, start_index)"
      and e4: "(if regno0 < 0 then find_free ?occ start_index (prs_phys_max prsp)
                else Inr regno0) = Inr regno"
      and e5: "assign_or_split ra ?ivs prsp i regno = Inr (ivs1, prsp1)"
      and e6: "intervals st' = ivs1"
    by auto
  have occupied: "?occ AND bit1 j \<noteq> 0" if "0 \<le> j" "j < prs_phys_max prsp" "shift_ok j" for j
    using full that bit1_test[of j ?occ] by blast
  have r0: "regno0 < 0"
  proof (rule ccontr)
    assume "\<not> regno0 < 0"
    then have nn: "0 \<le> regno0" by simp
    from param_hint_result[OF e3] nn have ok: "shift_ok regno0" "?occ AND bit1 regno0 = 0"
      by simp_all
    from param_hint_register[OF e3 nn] hint have "regno0 < prs_phys_max prsp" by simp
    from occupied[OF nn this ok(1)] ok(2) show False by simp
  qed
  with e4 have ff: "find_free ?occ start_index (prs_phys_max prsp) = Inr regno" by simp
  have r: "\<not> 0 \<le> regno"
  proof
    assume nn: "0 \<le> regno"
    from find_free_result[OF ff] nn
    have "shift_ok regno" "?occ AND bit1 regno = 0" "regno < prs_phys_max prsp" by simp_all
    with occupied[OF nn] show False by simp
  qed
  from e5 r have ne: "active prsp \<noteq> []"
    by (auto simp: assign_or_split_def split_at_interval_def split: if_splits)
  from sp have "sorted_wrt (\<lambda>a b. li_end (?ivs ! a) \<le> li_end (?ivs ! b)) (active prsp)"
    and mem: "\<forall>a \<in> set (active prsp). a \<in> set pre \<and> a < length ?ivs"
    by (simp_all add: set_inv_def)
  from sorted_wrt_last_max[OF this(1) ne]
  have far: "\<forall>a \<in> set (active prsp). li_end (?ivs ! a) \<le> li_end (?ivs ! last (active prsp))" .
  have "last (active prsp) \<in> set pre" using mem ne by simp
  with ipre have neq: "last (active prsp) \<noteq> i" by auto
  from e5 r ne neq have res: "if li_end (?ivs ! last (active prsp)) > li_end (?ivs ! i)
     then ivs1 = ?ivs
            [i := (?ivs ! i)\<lparr>li_phys := li_phys (?ivs ! last (active prsp))\<rparr>,
             last (active prsp) := (?ivs ! last (active prsp))
                \<lparr>li_phys := phys_max ra, li_state := LI_SPILL\<rparr>]
     else ivs1 = ?ivs[i := (?ivs ! i)\<lparr>li_phys := phys_max ra, li_state := LI_SPILL\<rparr>]"
    by (auto simp: assign_or_split_def split_at_interval_def Let_def)
  from ne far res e6 show ?thesis by simp
qed

text \<open>
  The theorem at the third of the intervals \<open>[0,9]\<close>, \<open>[1,5]\<close>, \<open>[2,4]\<close> with two
  registers: the active intervals are 1 and 0, interval 0 ends last and later than
  interval 2, so it is spilled and interval 2 takes register 0.
\<close>

lemma scan_sample_reach:
  "linear_scan_loop (ra_sample 3 2) [0, 1] (scan_init (ra_sample 3 2) scan_sample)
     = Inr scan_sample_mid"
  by code_simp

lemma scan_sample_step:
  "linear_scan_step (ra_sample 3 2) 2 scan_sample_mid = Inr scan_sample_end"
  by code_simp

theorem split_takes_farthest_end_witness:
  "active (iregset scan_sample_mid) \<noteq> [] \<and>
   li_end (intervals scan_sample_mid ! 1) \<le> li_end (intervals scan_sample_mid ! 0) \<and>
   intervals scan_sample_end = (intervals scan_sample_mid)
      [2 := (intervals scan_sample_mid ! 2)\<lparr>li_phys := li_phys (intervals scan_sample_mid ! 0)\<rparr>,
       0 := (intervals scan_sample_mid ! 0)\<lparr>li_phys := 2, li_state := LI_SPILL\<rparr>]"
proof -
  have d: "distinct ([0, 1] @ [2 :: nat])" by simp
  have b: "\<forall>k \<in> set ([0, 1] @ [2 :: nat]). k < length scan_sample" by (simp add: scan_sample_def)
  have s: "sorted_wrt (\<lambda>a b. li_start (scan_sample ! a) \<le> li_start (scan_sample ! b))
             ([0, 1] @ [2])"
    by (simp add: scan_sample_def interval_sample_def)
  have v: "li_virt (intervals scan_sample_mid ! 2) < length (vregs (ra_sample 3 2))"
    "vregs (ra_sample 3 2) ! li_virt (intervals scan_sample_mid ! 2) = Some (vreg_sample 2)"
    "li_state (intervals scan_sample_mid ! 2) = LI_NORMAL"
    by (simp_all add: scan_sample_mid_def interval_sample_def ra_sample_def upt_rec
        numeral_2_eq_2)
  have e1: "expire_old_intervals (intervals scan_sample_mid) (iregset scan_sample_mid)
              (li_start (intervals scan_sample_mid ! 2)) = Inr (iregset scan_sample_mid)"
    by code_simp
  have e2: "expire_old_intervals (intervals scan_sample_mid) (fregset scan_sample_mid)
              (li_start (intervals scan_sample_mid ! 2)) = Inr (fregset scan_sample_mid)"
    by code_simp
  have p: "iregset scan_sample_mid =
      (if VRTF_FLONUM (vtype (vreg_sample 2)) then fregset scan_sample_mid
       else iregset scan_sample_mid)"
    by (simp add: vreg_sample_def vtInt_def)
  have full: "\<forall>j. 0 \<le> j \<and> j < prs_phys_max (iregset scan_sample_mid) \<longrightarrow>
      bit (using_bits (iregset scan_sample_mid) OR
           occupied_reg_bit (intervals scan_sample_mid ! 2)) (nat j)"
  proof (intro allI impI)
    fix j :: int assume "0 \<le> j \<and> j < prs_phys_max (iregset scan_sample_mid)"
    then have "j = 0 \<or> j = 1" by (auto simp: scan_sample_mid_def)
    then show "bit (using_bits (iregset scan_sample_mid) OR
           occupied_reg_bit (intervals scan_sample_mid ! 2)) (nat j)"
      by (auto simp: scan_sample_mid_def interval_sample_def bit_or_iff bit_numeral_word_iff)
  qed
  have hint: "hinted_register (ra_sample 3 2) (vreg_sample 2) < prs_phys_max (iregset scan_sample_mid)"
    by (simp add: hinted_register_def vreg_sample_def scan_sample_mid_def)
  from split_takes_farthest_end[OF scan_sample_reach d b s v e1 e2 p full hint scan_sample_step]
  show ?thesis
    by (simp add: scan_sample_mid_def interval_sample_def ra_sample_def)
qed

subsection \<open>The allocation loop: what a pass does to the vregs\<close>










subsection \<open>The allocation loop: a pass on the chain of temporaries\<close>


lemma chain_vregs_fixed:
  "chain_vregs n ! 0 = Some (spill_vreg (vreg_sample 0))"
  "chain_vregs n ! 1 = Some (spill_vreg (vreg_sample 1))"
  "chain_vregs n ! 2 = Some (vreg_sample 2)"
  "chain_vregs n ! 3 = Some (tmp_sample 3 False)"
  "chain_vregs n ! 4 = Some (tmp_sample 4 False)"
  "chain_vregs n ! 5 = Some (tmp_sample 5 False)"
  by (simp_all add: chain_vregs_def)
























































lemma chain_spilled_length: "length (chain_spilled n) = 7 + n"
  by (simp add: chain_spilled_def)











subsection \<open>The allocation loop: spilled vregs and termination\<close>









end
